theory Spec2Isabelle
  imports Complex_Main "HOL-Library.Multiset" "HOL-Library.List_Lexorder" "HOL-Library.Char_ord"
begin

unbundle bit_operations_syntax

chapter \<open>gsuneido: store, state root, temp index, union and summarize\<close>

text \<open>
  Go's \<open>uint64\<close> values are modelled as \<open>nat\<close> with the wrap-around at \<open>2 ^ 64\<close>
  written out where the code adds or shifts, Go's \<open>int\<close> as \<open>int\<close>, a byte as a
  \<open>nat\<close> below 256 and a byte slice as a list of bytes. Go strings are
  \<open>string\<close>, compared bytewise (the lexicographic order on \<open>char list\<close>).
  A panic is a value \<open>Inl e\<close> of a sum type.
\<close>

section \<open>Summarize (dbms/query/summarize.go)\<close>

subsection \<open>NewSummarize\<close>

datatype sumError =
    NonexistentColumns "string list"
  | LowerField
  | NotParallel

text \<open>An aggregate: result column, operation, aggregated column
  (one index of the parallel slices \<open>cols\<close>, \<open>ops\<close>, \<open>ons\<close>).\<close>

type_synonym agg = "string \<times> string \<times> string"

record Summarize =
  su_by :: "string list"
  su_cols :: "string list"
  su_ops :: "string list"
  su_ons :: "string list"
  su_wholeRow :: bool

definition agg_col :: "agg \<Rightarrow> string" where
  "agg_col a = fst a"

definition agg_op :: "agg \<Rightarrow> string" where
  "agg_op a = fst (snd a)"

definition agg_on :: "agg \<Rightarrow> string" where
  "agg_on a = snd (snd a)"

text \<open>\<open>strings.HasSuffix\<close>.\<close>

definition HasSuffix :: "string \<Rightarrow> string \<Rightarrow> bool" where
  "HasSuffix s suffix =
     (length suffix \<le> length s \<and> drop (length s - length suffix) s = suffix)"

text \<open>\<open>check\<close>: no column may end in \<open>_lower!\<close>.\<close>

definition check :: "string list \<Rightarrow> bool" where
  "check cs = (\<not> list_ex (\<lambda>c. HasSuffix c ''_lower!'') cs)"

text \<open>The loop of \<open>NewSummarize\<close> that fills in an empty result column: the test is
  on the aggregated column \<open>ons[i]\<close>, not on the operation.\<close>

definition defaultCol :: "agg \<Rightarrow> agg" where
  "defaultCol a =
     (if agg_col a = ''''
      then (if agg_on a = '''' then (''count'', agg_op a, agg_on a)
            else (agg_op a @ ''_'' @ agg_on a, agg_op a, agg_on a))
      else a)"

text \<open>\<open>Less(i, j)\<close> of the \<open>sort.Interface\<close>: \<open>su.ons[i] < su.ons[j]\<close>.\<close>

definition Less :: "agg \<Rightarrow> agg \<Rightarrow> bool" where
  "Less a b = (agg_on a < agg_on b)"

text \<open>
  \<open>sort.Stable(su)\<close> with \<open>Swap\<close> exchanging the three slices together. The
  standard library's stable sort is an insertion sort (on blocks, merged stably):
  element \<open>i\<close> is moved left while it is \<open>Less\<close> than its left neighbour.
  \<open>insertLeft x rs\<close> is that inner loop on the sorted prefix held in reverse
  (nearest neighbour first); \<open>sortStable\<close> is the outer loop.
\<close>

fun insertLeft :: "agg \<Rightarrow> agg list \<Rightarrow> agg list" where
  "insertLeft x [] = [x]"
| "insertLeft x (y # ys) = (if Less x y then y # insertLeft x ys else x # y # ys)"

definition sortStable :: "agg list \<Rightarrow> agg list" where
  "sortStable xs = rev (foldl (\<lambda>rs x. insertLeft x rs) [] xs)"

definition minmax1 :: "string list \<Rightarrow> string list \<Rightarrow> bool" where
  "minmax1 by ops = (length by = 0 \<and> length ops = 1 \<and> (ops ! 0 = ''min'' \<or> ops ! 0 = ''max''))"

text \<open>
  \<open>NewSummarize(src, by, cols, ops, ons)\<close>. The source query enters through its
  \<open>Columns()\<close> and \<open>Keys()\<close>. \<open>cols\<close>, \<open>ops\<close> and \<open>ons\<close> are parallel (the
  struct's comment); slices of different lengths, on which the Go code would index
  out of range, are rejected as \<open>NotParallel\<close>.
\<close>

definition NewSummarize ::
  "string list \<Rightarrow> string list list \<Rightarrow> string list \<Rightarrow> string list \<Rightarrow> string list \<Rightarrow> string list
     \<Rightarrow> sumError + Summarize" where
  "NewSummarize srcColumns srcKeys by cols ops ons =
     (if \<not> set by \<subseteq> set srcColumns
        then Inl (NonexistentColumns (filter (\<lambda>c. c \<notin> set srcColumns) by))
      else if \<not> check by \<or> \<not> check ons then Inl LowerField
      else if length ops \<noteq> length cols \<or> length ons \<noteq> length cols then Inl NotParallel
      else
        let aggs = sortStable (map defaultCol (zip cols (zip ops ons)));
            ops' = map agg_op aggs;
            ons' = map agg_on aggs
        in Inr \<lparr> su_by = by, su_cols = map agg_col aggs, su_ops = ops', su_ons = ons',
                 su_wholeRow = (minmax1 by ops' \<and> list_ex (\<lambda>k. set k = set ons') srcKeys) \<rparr>)"

text \<open>The name the claim gives an unnamed aggregate: \<open>count\<close> for a count,
  \<open>op_on\<close> otherwise.\<close>

definition claimedCol :: "agg \<Rightarrow> agg" where
  "claimedCol a =
     (if agg_col a = ''''
      then (if agg_op a = ''count'' then (''count'', agg_op a, agg_on a)
            else (agg_op a @ ''_'' @ agg_on a, agg_op a, agg_on a))
      else a)"

text \<open>What the query parser (\<open>sumOps\<close> in parsequery.go) builds: an aggregated
  column is read exactly when the operation is not \<open>count\<close>.\<close>

definition parsedAgg :: "agg \<Rightarrow> bool" where
  "parsedAgg a = ((agg_on a = '''') = (agg_op a = ''count''))"

definition aggsOf :: "Summarize \<Rightarrow> agg list" where
  "aggsOf su = zip (su_cols su) (zip (su_ops su) (su_ons su))"

subsection \<open>Facts about the stable sort\<close>

lemma insertLeft_mset: "mset (insertLeft x rs) = add_mset x (mset rs)"
  by (induction rs) auto

lemma insertLeft_set: "set (insertLeft x rs) = insert x (set rs)"
  by (induction rs) auto

lemma insertLeft_sorted:
  "sorted (rev (map agg_on rs)) \<Longrightarrow> sorted (rev (map agg_on (insertLeft x rs)))"
proof (induction rs)
  case Nil
  then show ?case by simp
next
  case (Cons y ys)
  show ?case
  proof (cases "Less x y")
    case True
    from Cons.prems have s: "sorted (rev (map agg_on ys))" and
      le: "\<forall>z \<in> set ys. agg_on z \<le> agg_on y"
      by (auto simp: sorted_append)
    have "\<forall>z \<in> set (insertLeft x ys). agg_on z \<le> agg_on y"
      using le True by (auto simp: insertLeft_set Less_def)
    with Cons.IH [OF s] True show ?thesis
      by (auto simp: sorted_append)
  next
    case False
    with Cons.prems show ?thesis
      by (auto simp: sorted_append Less_def)
  qed
qed

lemma insertLeft_filter_eq:
  "sorted (rev (map agg_on rs)) \<Longrightarrow>
   rev (filter (\<lambda>a. agg_on a = k) (insertLeft x rs)) =
   rev (filter (\<lambda>a. agg_on a = k) rs) @ (if agg_on x = k then [x] else [])"
proof (induction rs)
  case Nil
  then show ?case by simp
next
  case (Cons y ys)
  from Cons.prems have s: "sorted (rev (map agg_on ys))"
    by (auto simp: sorted_append)
  show ?case
  proof (cases "Less x y")
    case True
    then have "agg_on x \<noteq> agg_on y" by (auto simp: Less_def)
    with Cons.IH [OF s] True show ?thesis by auto
  next
    case False
    then show ?thesis by simp
  qed
qed

lemma foldl_insertLeft_sorted:
  "sorted (rev (map agg_on rs)) \<Longrightarrow>
   sorted (rev (map agg_on (foldl (\<lambda>rs x. insertLeft x rs) rs xs)))"
  by (induction xs arbitrary: rs) (auto simp: insertLeft_sorted)

lemma foldl_insertLeft_mset:
  "mset (foldl (\<lambda>rs x. insertLeft x rs) rs xs) = mset rs + mset xs"
  by (induction xs arbitrary: rs) (auto simp: insertLeft_mset)

lemma foldl_insertLeft_filter:
  "sorted (rev (map agg_on rs)) \<Longrightarrow>
   rev (filter (\<lambda>a. agg_on a = k) (foldl (\<lambda>rs x. insertLeft x rs) rs xs)) =
   rev (filter (\<lambda>a. agg_on a = k) rs) @ filter (\<lambda>a. agg_on a = k) xs"
proof (induction xs arbitrary: rs)
  case Nil
  then show ?case by simp
next
  case (Cons x xs)
  have "sorted (rev (map agg_on (insertLeft x rs)))"
    using Cons.prems by (rule insertLeft_sorted)
  from Cons.IH [OF this] show ?case
    using insertLeft_filter_eq [OF Cons.prems, of k x] by simp
qed

lemma sortStable_sorted: "sorted (map agg_on (sortStable xs))"
  using foldl_insertLeft_sorted [of "[]" xs] by (simp add: sortStable_def rev_map)

lemma sortStable_mset: "mset (sortStable xs) = mset xs"
  by (simp add: sortStable_def foldl_insertLeft_mset)

lemma sortStable_length: "length (sortStable xs) = length xs"
  using sortStable_mset [of xs] by (metis size_mset)

lemma sortStable_stable:
  "filter (\<lambda>a. agg_on a = k) (sortStable xs) = filter (\<lambda>a. agg_on a = k) xs"
  using foldl_insertLeft_filter [of "[]" k xs] by (simp add: sortStable_def rev_filter)

lemma zip3_map: "zip (map agg_col as) (zip (map agg_op as) (map agg_on as)) = as"
  by (induction as) (auto simp: agg_col_def agg_op_def agg_on_def)

lemma parsed_defaultCol: "parsedAgg a \<Longrightarrow> defaultCol a = claimedCol a"
  by (auto simp: parsedAgg_def defaultCol_def claimedCol_def)

text \<open>
  C10. A Summarize built by NewSummarize holds the aggregates stably sorted in
  ascending order of the aggregated column: its \<open>ons\<close> are sorted, its triples are a
  permutation of the given ones after naming, and aggregates on the same column keep
  their written order. An unnamed aggregate is named before the sort; for the
  aggregates a query can contain (an aggregated column exactly when the operation is not
  count) the name is \<open>count\<close> for a count and \<open>op_on\<close> otherwise.
\<close>

theorem NewSummarize_sorted_by_on:
  assumes "NewSummarize srcColumns srcKeys by cols ops ons = Inr su"
  shows "sorted (su_ons su)
       \<and> mset (aggsOf su) = mset (map defaultCol (zip cols (zip ops ons)))
       \<and> (\<forall>k. filter (\<lambda>a. agg_on a = k) (aggsOf su)
              = filter (\<lambda>a. agg_on a = k) (map defaultCol (zip cols (zip ops ons))))
       \<and> (list_all parsedAgg (zip cols (zip ops ons)) \<longrightarrow>
            aggsOf su = sortStable (map claimedCol (zip cols (zip ops ons))))"
proof -
  let ?named = "map defaultCol (zip cols (zip ops ons))"
  from assms have su: "su_cols su = map agg_col (sortStable ?named)"
    "su_ops su = map agg_op (sortStable ?named)"
    "su_ons su = map agg_on (sortStable ?named)"
    by (auto simp: NewSummarize_def Let_def split: if_splits)
  then have aggs: "aggsOf su = sortStable ?named"
    by (simp add: aggsOf_def zip3_map)
  have 1: "sorted (su_ons su)"
    by (simp add: su sortStable_sorted)
  have 2: "mset (aggsOf su) = mset ?named"
    by (simp add: aggs sortStable_mset)
  have 3: "\<forall>k. filter (\<lambda>a. agg_on a = k) (aggsOf su) = filter (\<lambda>a. agg_on a = k) ?named"
    by (simp add: aggs sortStable_stable)
  have 4: "list_all parsedAgg (zip cols (zip ops ons)) \<longrightarrow>
            aggsOf su = sortStable (map claimedCol (zip cols (zip ops ons)))"
  proof
    assume "list_all parsedAgg (zip cols (zip ops ons))"
    then have "\<forall>a \<in> set (zip cols (zip ops ons)). defaultCol a = claimedCol a"
      by (simp add: list_all_iff parsed_defaultCol)
    then have "?named = map claimedCol (zip cols (zip ops ons))"
      by (intro map_cong refl) blast
    then show "aggsOf su = sortStable (map claimedCol (zip cols (zip ops ons)))"
      unfolding aggs by (rule arg_cong)
  qed
  from 1 2 3 4 show ?thesis by blast
qed

theorem NewSummarize_sorted_by_on_witness:
  "NewSummarize [''a'', ''b''] [[''a'']] [] ['''', '''', ''x''] [''total'', ''count'', ''max'']
       [''b'', '''', ''a'']
     = Inr \<lparr>su_by = [], su_cols = [''count'', ''x'', ''total_b''],
            su_ops = [''count'', ''max'', ''total''], su_ons = ['''', ''a'', ''b''],
            su_wholeRow = False\<rparr>
   \<and> list_all parsedAgg (zip ['''', '''', ''x''] (zip [''total'', ''count'', ''max''] [''b'', '''', ''a'']))
   \<and> sorted ['''', ''a'', ''b'']
   \<and> [(''count'', ''count'', ''''), (''x'', ''max'', ''a''), (''total_b'', ''total'', ''b'')]
       = sortStable (map claimedCol
           (zip ['''', '''', ''x''] (zip [''total'', ''count'', ''max''] [''b'', '''', ''a''])))"
proof -
  have h: "NewSummarize [''a'', ''b''] [[''a'']] [] ['''', '''', ''x'']
       [''total'', ''count'', ''max''] [''b'', '''', ''a'']
     = Inr \<lparr>su_by = [], su_cols = [''count'', ''x'', ''total_b''],
            su_ops = [''count'', ''max'', ''total''], su_ons = ['''', ''a'', ''b''],
            su_wholeRow = False\<rparr>"
    by code_simp
  have p: "list_all parsedAgg
      (zip ['''', '''', ''x''] (zip [''total'', ''count'', ''max''] [''b'', '''', ''a'']))"
    by code_simp
  show ?thesis
    using h p NewSummarize_sorted_by_on [OF h] by (simp add: aggsOf_def)
qed

subsection \<open>Aggregate combiners: total and average\<close>

text \<open>
  \<open>OpAdd\<close> and \<open>OpDiv\<close> belong to the runtime, outside this part of the
  repository: they are parameters, \<open>None\<close> standing for a panic.
  \<open>defer func() { recover() }()\<close> swallows the panic of \<open>OpAdd\<close>, in which case the
  assignment to \<open>sum.total\<close> has not happened.
\<close>

record 'v sumTotal =
  st_total :: 'v

record 'v sumAverage =
  sa_count :: int
  sa_total :: 'v

definition sumTotal_add :: "('v \<Rightarrow> 'v \<Rightarrow> 'v option) \<Rightarrow> 'v sumTotal \<Rightarrow> 'v \<Rightarrow> 'v sumTotal" where
  "sumTotal_add OpAdd s val =
     (case OpAdd (st_total s) val of
        None \<Rightarrow> s
      | Some t \<Rightarrow> s\<lparr>st_total := t\<rparr>)"

definition sumTotal_result :: "'v sumTotal \<Rightarrow> 'v" where
  "sumTotal_result s = st_total s"

text \<open>\<open>sumAverage.add\<close> counts the row first, then installs the recover and adds.\<close>

definition sumAverage_add ::
  "('v \<Rightarrow> 'v \<Rightarrow> 'v option) \<Rightarrow> 'v sumAverage \<Rightarrow> 'v \<Rightarrow> 'v sumAverage" where
  "sumAverage_add OpAdd s val =
     (let s1 = s\<lparr>sa_count := sa_count s + 1\<rparr>
      in case OpAdd (sa_total s1) val of
           None \<Rightarrow> s1
         | Some t \<Rightarrow> s1\<lparr>sa_total := t\<rparr>)"

definition sumAverage_result ::
  "('v \<Rightarrow> 'v \<Rightarrow> 'v option) \<Rightarrow> (int \<Rightarrow> 'v) \<Rightarrow> 'v sumAverage \<Rightarrow> 'v option" where
  "sumAverage_result OpDiv IntVal s = OpDiv (sa_total s) (IntVal (sa_count s))"

text \<open>\<open>newSumOp\<close> for \<open>total\<close> and \<open>average\<close>.\<close>

definition newSumTotal :: "'v \<Rightarrow> 'v sumTotal" where
  "newSumTotal Zero = \<lparr>st_total = Zero\<rparr>"

definition newSumAverage :: "'v \<Rightarrow> 'v sumAverage" where
  "newSumAverage Zero = \<lparr>sa_count = 0, sa_total = Zero\<rparr>"

text \<open>One group of a summarize: \<open>addToSums\<close> calls \<open>add\<close> with the column's value of
  each row in turn, then \<open>result\<close> is read.\<close>

definition addAllTotal :: "('v \<Rightarrow> 'v \<Rightarrow> 'v option) \<Rightarrow> 'v \<Rightarrow> 'v list \<Rightarrow> 'v sumTotal" where
  "addAllTotal OpAdd Zero vals = foldl (sumTotal_add OpAdd) (newSumTotal Zero) vals"

definition addAllAverage :: "('v \<Rightarrow> 'v \<Rightarrow> 'v option) \<Rightarrow> 'v \<Rightarrow> 'v list \<Rightarrow> 'v sumAverage" where
  "addAllAverage OpAdd Zero vals = foldl (sumAverage_add OpAdd) (newSumAverage Zero) vals"

definition totalOf :: "('v \<Rightarrow> 'v \<Rightarrow> 'v option) \<Rightarrow> 'v \<Rightarrow> 'v list \<Rightarrow> 'v" where
  "totalOf OpAdd Zero vals = sumTotal_result (addAllTotal OpAdd Zero vals)"

definition averageOf ::
  "('v \<Rightarrow> 'v \<Rightarrow> 'v option) \<Rightarrow> ('v \<Rightarrow> 'v \<Rightarrow> 'v option) \<Rightarrow> (int \<Rightarrow> 'v) \<Rightarrow> 'v \<Rightarrow> 'v list
     \<Rightarrow> 'v option" where
  "averageOf OpAdd OpDiv IntVal Zero vals =
     sumAverage_result OpDiv IntVal (addAllAverage OpAdd Zero vals)"

text \<open>
  Modelled from the spec: the runtime's \<open>Value\<close>, \<open>OpAdd\<close> and \<open>OpDiv\<close> are not
  under src/. Of the tagged union only integers and strings are kept, with the spec's
  value-conversion failure: adding a string (one that is no number) panics. Only exact
  quotients are modelled.
\<close>

datatype Value = SuInt int | SuStr string

fun OpAdd :: "Value \<Rightarrow> Value \<Rightarrow> Value option" where
  "OpAdd (SuInt a) (SuInt b) = Some (SuInt (a + b))"
| "OpAdd _ _ = None"

fun OpDiv :: "Value \<Rightarrow> Value \<Rightarrow> Value option" where
  "OpDiv (SuInt a) (SuInt b) = (if b \<noteq> 0 \<and> b dvd a then Some (SuInt (a div b)) else None)"
| "OpDiv _ _ = None"

lemma sumAverage_add_count: "sa_count (sumAverage_add f s v) = sa_count s + 1"
  by (auto simp: sumAverage_add_def Let_def split: option.splits)

lemma foldl_sumAverage_add_count:
  "sa_count (foldl (sumAverage_add f) s vs) = sa_count s + int (length vs)"
  by (induction vs arbitrary: s) (auto simp: sumAverage_add_def Let_def split: option.splits)

lemma sumAverage_add_total_cong:
  "sa_total s = sa_total s' \<Longrightarrow> sa_total (sumAverage_add f s v) = sa_total (sumAverage_add f s' v)"
  by (auto simp: sumAverage_add_def Let_def split: option.splits)

lemma foldl_sumAverage_add_total_cong:
  "sa_total s = sa_total s' \<Longrightarrow>
   sa_total (foldl (sumAverage_add f) s vs) = sa_total (foldl (sumAverage_add f) s' vs)"
proof (induction vs arbitrary: s s')
  case Nil
  then show ?case by simp
next
  case (Cons v vs)
  from Cons.prems have "sa_total (sumAverage_add f s v) = sa_total (sumAverage_add f s' v)"
    by (rule sumAverage_add_total_cong)
  from Cons.IH [OF this] show ?case by simp
qed

text \<open>
  C7, as amended. A row whose addition fails leaves the running total of \<open>total\<close> and
  of \<open>average\<close> as it was (nothing propagates: \<open>add\<close> has no failing result), so
  \<open>total\<close> is the total of the rows without the failing one. \<open>average\<close> has already
  counted the failing row: its total is that of the other rows, its count is one more
  than theirs.
\<close>

theorem failing_row_total_average:
  assumes "OpAdd' (st_total (addAllTotal OpAdd' Zero pre)) v = None"
      and "OpAdd' (sa_total (addAllAverage OpAdd' Zero pre)) v = None"
  shows "totalOf OpAdd' Zero (pre @ v # post) = totalOf OpAdd' Zero (pre @ post)
       \<and> sa_total (addAllAverage OpAdd' Zero (pre @ v # post))
           = sa_total (addAllAverage OpAdd' Zero (pre @ post))
       \<and> sa_count (addAllAverage OpAdd' Zero (pre @ v # post))
           = sa_count (addAllAverage OpAdd' Zero (pre @ post)) + 1"
proof -
  from assms(1) have "sumTotal_add OpAdd' (addAllTotal OpAdd' Zero pre) v = addAllTotal OpAdd' Zero pre"
    by (simp add: sumTotal_add_def)
  then have 1: "totalOf OpAdd' Zero (pre @ v # post) = totalOf OpAdd' Zero (pre @ post)"
    by (simp add: totalOf_def addAllTotal_def)
  from assms(2) have "sa_total (sumAverage_add OpAdd' (addAllAverage OpAdd' Zero pre) v)
      = sa_total (addAllAverage OpAdd' Zero pre)"
    by (simp add: sumAverage_add_def Let_def)
  then have "sa_total (foldl (sumAverage_add OpAdd')
                 (sumAverage_add OpAdd' (addAllAverage OpAdd' Zero pre) v) post)
           = sa_total (foldl (sumAverage_add OpAdd') (addAllAverage OpAdd' Zero pre) post)"
    by (rule foldl_sumAverage_add_total_cong)
  then have 2: "sa_total (addAllAverage OpAdd' Zero (pre @ v # post))
           = sa_total (addAllAverage OpAdd' Zero (pre @ post))"
    by (simp add: addAllAverage_def)
  have 3: "sa_count (addAllAverage OpAdd' Zero (pre @ v # post))
           = sa_count (addAllAverage OpAdd' Zero (pre @ post)) + 1"
    by (simp add: addAllAverage_def foldl_sumAverage_add_count sumAverage_add_count)
  from 1 2 3 show ?thesis by blast
qed

theorem failing_row_total_average_witness:
  "OpAdd (st_total (addAllTotal OpAdd (SuInt 0) [SuInt 6])) (SuStr ''x'') = None
   \<and> OpAdd (sa_total (addAllAverage OpAdd (SuInt 0) [SuInt 6])) (SuStr ''x'') = None
   \<and> totalOf OpAdd (SuInt 0) [SuInt 6, SuStr ''x'', SuInt 6] = SuInt 12
   \<and> totalOf OpAdd (SuInt 0) [SuInt 6, SuInt 6] = SuInt 12
   \<and> sa_count (addAllAverage OpAdd (SuInt 0) [SuInt 6, SuStr ''x'', SuInt 6]) = 3
   \<and> sa_count (addAllAverage OpAdd (SuInt 0) [SuInt 6, SuInt 6]) = 2"
proof -
  have a: "OpAdd (st_total (addAllTotal OpAdd (SuInt 0) [SuInt 6])) (SuStr ''x'') = None"
    by (simp add: addAllTotal_def newSumTotal_def sumTotal_add_def)
  have b: "OpAdd (sa_total (addAllAverage OpAdd (SuInt 0) [SuInt 6])) (SuStr ''x'') = None"
    by (simp add: addAllAverage_def newSumAverage_def sumAverage_add_def)
  have c: "totalOf OpAdd (SuInt 0) ([SuInt 6] @ [SuInt 6]) = SuInt 12"
    by (simp add: totalOf_def sumTotal_result_def addAllTotal_def newSumTotal_def sumTotal_add_def)
  have d: "sa_count (addAllAverage OpAdd (SuInt 0) ([SuInt 6] @ [SuInt 6])) = 2"
    by (simp add: addAllAverage_def newSumAverage_def sumAverage_add_def)
  show ?thesis
    using a b c d failing_row_total_average [OF a b, of "[SuInt 6]"] by simp
qed

text \<open>
  C7 as stated fails for \<open>average\<close>: with the rows 6, a string and 6, the string's row
  fails in \<open>OpAdd\<close>, and the average is 12 / 3 = 4, not the average 12 / 2 = 6 of the rows
  with the failing one skipped.
\<close>

theorem average_counts_failing_row:
  "OpAdd (sa_total (addAllAverage OpAdd (SuInt 0) [SuInt 6])) (SuStr ''x'') = None
   \<and> averageOf OpAdd OpDiv SuInt (SuInt 0) [SuInt 6, SuStr ''x'', SuInt 6] = Some (SuInt 4)
   \<and> averageOf OpAdd OpDiv SuInt (SuInt 0) [SuInt 6, SuInt 6] = Some (SuInt 6)"
  by (simp add: averageOf_def sumAverage_result_def addAllAverage_def newSumAverage_def
      sumAverage_add_def)

subsection \<open>The map strategy\<close>

text \<open>
  Modelled from the spec: the \<open>Mode\<close> type is declared outside src/ (\<open>ReadMode\<close> is
  the mode the union test sets up); the planner's other modes are update and cursor.
\<close>

datatype Mode = ReadMode | UpdateMode | CursorMode

datatype sumStrategy = sumSeq | sumMap | sumIdx | sumTbl

record summarizeApproach =
  strategy :: sumStrategy
  index :: "string list option"
  frac :: real

text \<open>
  \<open>Summarize.mapCost(mode, index, _)\<close>. \<open>Optimize(su.source, mode, nil, 1)\<close>,
  \<open>su.Nrows()\<close> and the constants \<open>mapLimit\<close> and \<open>impossible\<close> are parameters.
  The mode is only handed on to the source's \<open>Optimize\<close> (the code's FIXME: "technically,
  map should only be allowed in ReadMode").
\<close>

definition mapCost ::
  "(Mode \<Rightarrow> string list option \<Rightarrow> real \<Rightarrow> int \<times> int) \<Rightarrow> int \<Rightarrow> int \<Rightarrow> int
     \<Rightarrow> Mode \<Rightarrow> string list option \<Rightarrow> int \<times> int \<times> summarizeApproach option" where
  "mapCost OptimizeSource nrows mapLimit impossible mode index' =
     (if index' \<noteq> None \<or> nrows > mapLimit - mapLimit div 3
      then (impossible, impossible, None)
      else
        let (fixcost, varcost) = OptimizeSource mode None 1;
            fixcost1 = fixcost + nrows * 20
        in (fixcost1 + varcost, 0, Some \<lparr>strategy = sumMap, index = None, frac = 1\<rparr>))"

text \<open>
  C8 fails on the code: the mode plays no part in \<open>mapCost\<close>. With no required index
  and a row estimate within the limit it offers the map strategy in every mode, update
  mode included.
\<close>

theorem mapCost_offers_map_in_any_mode:
  assumes "nrows \<le> mapLimit - mapLimit div 3"
  shows "snd (snd (mapCost OptimizeSource nrows mapLimit impossible mode None))
           = Some \<lparr>strategy = sumMap, index = None, frac = 1\<rparr>"
  using assms by (simp add: mapCost_def Let_def split: prod.splits)

theorem mapCost_in_update_mode:
  "(10::int) \<le> 1000 - 1000 div 3
   \<and> mapCost (\<lambda>mode ix fr. (100, 50)) 10 1000 1000000 UpdateMode None
     = (350, 0, Some \<lparr>strategy = sumMap, index = None, frac = 1\<rparr>)"
proof -
  have h: "(10::int) \<le> 1000 - 1000 div 3" by simp
  have "mapCost (\<lambda>mode ix fr. (100, 50)) 10 1000 1000000 UpdateMode None
     = (350, 0, snd (snd (mapCost (\<lambda>mode ix fr. (100, 50)) 10 1000 1000000 UpdateMode None)))"
    by (simp add: mapCost_def)
  then show ?thesis
    using h mapCost_offers_map_in_any_mode [OF h, of "\<lambda>mode ix fr. (100, 50)" 1000000 UpdateMode]
    by simp
qed

section \<open>The chunked store (package stor)\<close>

type_synonym byte = nat

datatype panic =
    AssertFailed
  | AfterClose
  | IndexOutOfRange
  | SliceOutOfRange
  | BadChecksum
  | DerivedTooLarge

text \<open>
  \<open>Stor\<close>: \<open>impl.Get(chunk)\<close> (the \<open>storage\<close> interface) is the field \<open>impl_Get\<close>,
  the atomic \<open>size\<close> is \<open>stor_size\<close>, the atomic slice of chunks is \<open>chunks\<close>. One
  thread is modelled: the compare-and-swap on \<open>size\<close> succeeds at once and the lock of
  \<open>getChunk\<close> is free.
\<close>

record Stor =
  impl_Get :: "int \<Rightarrow> byte list"
  chunksize :: nat
  threshold :: nat
  shift :: nat
  stor_size :: nat
  chunks :: "byte list list"

definition closedSize :: nat where
  "closedSize = 2 ^ 64 - 1"

text \<open>The conversions \<open>int(x)\<close> of a \<open>uint64\<close> and \<open>uint64(i)\<close> of an \<open>int\<close>
  (two's complement, 64 bits).\<close>

definition toInt :: "nat \<Rightarrow> int" where
  "toInt x = (if x < 2 ^ 63 then int x else int x - 2 ^ 64)"

definition toUint64 :: "int \<Rightarrow> nat" where
  "toUint64 i = nat (i mod 2 ^ 64)"

definition offsetToChunk :: "Stor \<Rightarrow> nat \<Rightarrow> int" where
  "offsetToChunk s offset = toInt (offset div 2 ^ shift s)"

definition chunkToOffset :: "Stor \<Rightarrow> int \<Rightarrow> nat" where
  "chunkToOffset s chunk = (toUint64 chunk * 2 ^ shift s) mod 2 ^ 64"

definition getChunk :: "Stor \<Rightarrow> int \<Rightarrow> Stor" where
  "getChunk s chunk =
     (if chunk \<ge> int (length (chunks s))
      then s\<lparr>chunks := chunks s @ [impl_Get s chunk]\<rparr>
      else s)"

text \<open>\<open>Data(offset)\<close>: the chunk from the offset to its end. Indexing \<open>chunks[chunk]\<close>
  and slicing \<open>c[i:]\<close> panic out of range.\<close>

definition Data :: "Stor \<Rightarrow> nat \<Rightarrow> panic + byte list" where
  "Data s offset =
     (let chunk = offsetToChunk s offset
      in if chunk < 0 \<or> chunk \<ge> int (length (chunks s)) then Inl IndexOutOfRange
         else
           let c = chunks s ! nat chunk;
               i = offset AND (chunksize s - 1)
           in if i > length c then Inl SliceOutOfRange else Inr (drop i c))"

text \<open>The part of \<open>Alloc\<close> after the compare-and-swap has confirmed the allocation.\<close>

definition confirmed :: "Stor \<Rightarrow> nat \<Rightarrow> nat \<Rightarrow> int \<Rightarrow> panic + (nat \<times> byte list \<times> Stor)" where
  "confirmed s offset newsize n =
     (let s1 = s\<lparr>stor_size := newsize\<rparr>;
          i = offset AND (chunksize s1 - 1);
          s2 = (if i \<le> threshold s1 \<and> (i + toUint64 n) mod 2 ^ 64 > threshold s1
                then getChunk s1 (offsetToChunk s1 offset + 1)
                else s1)
      in case Data s2 offset of
           Inl e \<Rightarrow> Inl e
         | Inr d \<Rightarrow> if nat n > length d then Inl SliceOutOfRange
                    else Inr (offset, take (nat n) d, s2))"

text \<open>\<open>Alloc(n)\<close> returns the offset, the slice \<open>Data(offset)[:n:n]\<close> and the store.\<close>

definition Alloc :: "Stor \<Rightarrow> int \<Rightarrow> panic + (nat \<times> byte list \<times> Stor)" where
  "Alloc s n =
     (if \<not> (0 < n \<and> n \<le> toInt (chunksize s)) then Inl AssertFailed
      else
        let oldsize = stor_size s
        in if oldsize = closedSize then Inl AfterClose
           else
             let offset = oldsize;
                 newsize = (offset + toUint64 n) mod 2 ^ 64;
                 chunk = offsetToChunk s newsize;
                 nchunks = offsetToChunk s ((oldsize + chunksize s - 1) mod 2 ^ 64)
             in if chunk \<ge> nchunks
                then
                  let s1 = (if chunk \<ge> int (length (chunks s)) then getChunk s chunk else s);
                      offset1 = chunkToOffset s1 chunk;
                      newsize1 = (offset1 + toUint64 n) mod 2 ^ 64
                  in confirmed s1 offset1 newsize1 n
                else confirmed s offset newsize n)"

text \<open>\<open>NewStor\<close>: the chunk size must be a power of two; the threshold is three
  quarters of it. The caller installs the chunks.\<close>

text \<open>\<open>bits.TrailingZeros\<close>: the number of trailing zero bits, 64 for 0.\<close>

fun trailing :: "nat \<Rightarrow> nat \<Rightarrow> nat" where
  "trailing 0 x = 0"
| "trailing (Suc k) x = (if odd x then 0 else Suc (trailing k (x div 2)))"

definition TrailingZeros :: "nat \<Rightarrow> nat" where
  "TrailingZeros x = (if x = 0 then 64 else trailing 64 x)"

definition NewStor :: "(int \<Rightarrow> byte list) \<Rightarrow> nat \<Rightarrow> nat \<Rightarrow> panic + Stor" where
  "NewStor impl cs sz =
     (let sh = TrailingZeros cs
      in if (2 ^ sh) mod 2 ^ 64 \<noteq> cs then Inl AssertFailed
         else Inr \<lparr>impl_Get = impl, chunksize = cs, threshold = (cs * 3) mod 2 ^ 64 div 4,
                   shift = sh, stor_size = sz, chunks = []\<rparr>)"

text \<open>
  Modelled from the spec: \<open>HeapStor\<close> is not under src/ (the in-memory version "for
  testing" of the \<open>storage\<close> interface): every chunk is a fresh zeroed slice of the chunk
  size, and the store starts empty with its first chunk in place ("at least one chunk
  if size is 0").
\<close>

definition HeapStor :: "nat \<Rightarrow> panic + Stor" where
  "HeapStor cs =
     (case NewStor (\<lambda>_. replicate cs 0) cs 0 of
        Inl e \<Rightarrow> Inl e
      | Inr hs \<Rightarrow> Inr (hs\<lparr>chunks := [replicate cs 0]\<rparr>))"

text \<open>What \<open>NewStor\<close> establishes and the store keeps: a power-of-two chunk size, a size
  that fits 64 bits.\<close>

definition storOk :: "Stor \<Rightarrow> bool" where
  "storOk s = (chunksize s = 2 ^ shift s \<and> shift s < 64 \<and> stor_size s < 2 ^ 64)"



subsection \<open>Allocations are chunk-local\<close>

lemma mod_div_chunk:
  fixes x cs M :: nat
  assumes "0 < cs"
  shows "(x mod (cs * M)) div cs = (x div cs) mod M"
proof -
  have "x mod (cs * M) = cs * (x div cs mod M) + x mod cs"
    by (rule mod_mult2_eq)
  then show ?thesis using assms by simp
qed

lemma div_eqI: "x = q * cs + r' \<Longrightarrow> r' < cs \<Longrightarrow> x div cs = (q::nat)"
  by simp

lemma no_straddle_fits:
  fixes cs M old n :: nat
  assumes cs: "0 < cs" and n: "0 < n" "n \<le> cs"
    and lt: "((old + n) mod (cs * M)) div cs < ((old + cs - 1) mod (cs * M)) div cs"
  shows "old mod cs + n \<le> cs"
proof (rule ccontr)
  assume "\<not> old mod cs + n \<le> cs"
  then have big: "cs < old mod cs + n" by simp
  define k where "k = old div cs"
  define r where "r = old mod cs"
  have old: "old = k * cs + r" and r: "r < cs"
    using cs by (simp_all add: k_def r_def)
  from big n have r1: "1 \<le> r" by (simp add: r_def)
  have a: "(old + n) div cs = k + 1"
  proof -
    have "old + n = (k + 1) * cs + (r + n - cs)" using old big by (simp add: r_def)
    moreover have "r + n - cs < cs" using r n by simp
    ultimately show ?thesis by (rule div_eqI)
  qed
  have b: "(old + cs - 1) div cs = k + 1"
  proof -
    have "old + cs - 1 = (k + 1) * cs + (r - 1)" using old r1 by simp
    moreover have "r - 1 < cs" using r by simp
    ultimately show ?thesis by (rule div_eqI)
  qed
  from lt have "(k + 1) mod M < (k + 1) mod M"
    unfolding mod_div_chunk [OF cs] a b .
  then show False by simp
qed




lemma toInt_le: "toInt x \<le> int x"
  by (simp add: toInt_def)

lemma toInt_id: "x < 2 ^ 63 \<Longrightarrow> toInt x = int x"
  by (simp add: toInt_def)

lemma cs_dvd: "storOk s \<Longrightarrow> (2::nat) ^ 64 = chunksize s * 2 ^ (64 - shift s)"
proof -
  assume "storOk s"
  then have c: "chunksize s = 2 ^ shift s" and "shift s < 64" by (simp_all add: storOk_def)
  then have "(64::nat) = shift s + (64 - shift s)" by simp
  then have "(2::nat) ^ 64 = 2 ^ (shift s + (64 - shift s))" by simp
  then show ?thesis unfolding c power_add .
qed

text \<open>A successful allocation asked for between 1 and chunksize bytes.\<close>

lemma Alloc_Inr_n:
  assumes "Alloc s n = Inr r"
  shows "0 < n \<and> n \<le> toInt (chunksize s)"
  using assms by (auto simp: Alloc_def split: if_splits)

lemma toInt_pos_small: "x < 2 ^ 64 \<Longrightarrow> 0 < toInt x \<Longrightarrow> x < 2 ^ 63"
  by (auto simp: toInt_def split: if_splits)

lemma confirmed_Inr:
  assumes "confirmed s offset newsize n = Inr (off, buf, s')"
  shows "off = offset \<and> length buf = nat n \<and> stor_size s' = newsize
       \<and> chunksize s' = chunksize s \<and> shift s' = shift s \<and> threshold s' = threshold s
       \<and> impl_Get s' = impl_Get s
       \<and> (\<exists>rest. Data s' off = Inr (buf @ rest))"
proof -
  define s1 where "s1 = s\<lparr>stor_size := newsize\<rparr>"
  define s2 where "s2 = (if (offset AND (chunksize s1 - 1)) \<le> threshold s1
         \<and> ((offset AND (chunksize s1 - 1)) + toUint64 n) mod 2 ^ 64 > threshold s1
                then getChunk s1 (offsetToChunk s1 offset + 1)
                else s1)"
  from assms obtain d where d: "Data s2 offset = Inr d" and len: "\<not> nat n > length d"
    and res: "off = offset" "buf = take (nat n) d" "s' = s2"
    by (auto simp: confirmed_def Let_def s1_def s2_def split: sum.splits if_splits)
  have f: "stor_size s2 = newsize" "chunksize s2 = chunksize s" "shift s2 = shift s"
    "threshold s2 = threshold s" "impl_Get s2 = impl_Get s"
    by (auto simp: s2_def s1_def getChunk_def)
  have "d = take (nat n) d @ drop (nat n) d" by simp
  with d res have "\<exists>rest. Data s' off = Inr (buf @ rest)" by metis
  with len res f show ?thesis by simp
qed


lemma same_chunk:
  fixes cs off n :: nat
  assumes "0 < cs" "0 < n" "off mod cs + n \<le> cs"
  shows "off div cs = (off + n - 1) div cs"
proof -
  have "off + n - 1 = (off div cs) * cs + (off mod cs + n - 1)"
    using assms by simp
  moreover have "off mod cs + n - 1 < cs" using assms by simp
  ultimately show ?thesis by (rule div_eqI [symmetric])
qed

lemma offsetToChunk_nat:
  assumes "storOk s" "1 \<le> shift s" "x < 2 ^ 64"
  shows "offsetToChunk s x = int (x div chunksize s)"
proof -
  from assms have c: "chunksize s = 2 ^ shift s" by (simp add: storOk_def)
  have "(2::nat) ^ 1 \<le> 2 ^ shift s"
    using assms(2) by (intro power_increasing) simp_all
  then have "x div 2 ^ shift s \<le> x div 2 ^ 1"
    by (intro div_le_mono2) simp_all
  also have "\<dots> < 2 ^ 63" using assms(3) by simp
  finally show ?thesis by (simp add: offsetToChunk_def toInt_id c)
qed

lemma chunkToOffset_mod:
  assumes "storOk s"
  shows "chunkToOffset s c mod chunksize s = 0"
proof -
  have "chunksize s dvd 2 ^ 64" unfolding cs_dvd [OF assms] by simp
  then have "chunkToOffset s c mod chunksize s = (toUint64 c * 2 ^ shift s) mod chunksize s"
    unfolding chunkToOffset_def by (rule mod_mod_cancel)
  also have "\<dots> = 0" using assms by (simp add: storOk_def)
  finally show ?thesis .
qed

lemma Alloc_facts:
  assumes ok: "storOk s"
  shows "(int (chunksize s) < n \<longrightarrow> Alloc s n = Inl AssertFailed)
       \<and> (\<forall>offset buf s'. Alloc s n = Inr (offset, buf, s') \<longrightarrow>
            0 < n \<and> n \<le> int (chunksize s)
          \<and> offset mod chunksize s + nat n \<le> chunksize s
          \<and> offset div chunksize s = (offset + nat n - 1) div chunksize s
          \<and> length buf = nat n
          \<and> (offset = stor_size s \<or> offset mod chunksize s = 0)
          \<and> stor_size s' = (offset + nat n) mod 2 ^ 64
          \<and> chunksize s' = chunksize s \<and> shift s' = shift s
          \<and> (\<exists>rest. Data s' offset = Inr (buf @ rest)))"
proof (intro conjI allI impI)
  assume "int (chunksize s) < n"
  with toInt_le [of "chunksize s"] show "Alloc s n = Inl AssertFailed"
    by (simp add: Alloc_def)
next
  fix offset buf s'
  assume A: "Alloc s n = Inr (offset, buf, s')"
  let ?cs = "chunksize s"
  from ok have cs: "?cs = 2 ^ shift s" and cspos: "0 < ?cs"
    and sz: "stor_size s < 2 ^ 64" and sh64: "shift s < 64"
    by (simp_all add: storOk_def)
  have "(2::nat) ^ shift s < 2 ^ 64"
    using sh64 by (intro power_strict_increasing) simp_all
  then have cs64: "?cs < 2 ^ 64" by (simp only: cs)
  from Alloc_Inr_n [OF A] have n: "0 < n" "n \<le> toInt ?cs" by simp_all
  then have "?cs < 2 ^ 63" using toInt_pos_small [OF cs64] by simp
  then have tcs: "toInt ?cs = int ?cs" by (rule toInt_id)
  with n have nle: "n \<le> int ?cs" by simp
  from n nle cs64 have un: "toUint64 n = nat n"
    by (simp add: toUint64_def)
  from n nle have nn: "0 < nat n" "nat n \<le> ?cs" by simp_all
  show "0 < n" by fact
  show "n \<le> int ?cs" by fact
  define newsize where "newsize = (stor_size s + nat n) mod 2 ^ 64"
  define chunk where "chunk = offsetToChunk s newsize"
  define nchunks where "nchunks = offsetToChunk s ((stor_size s + ?cs - 1) mod 2 ^ 64)"
  define s1 where "s1 = (if chunk \<ge> int (length (chunks s)) then getChunk s chunk else s)"
  have s1f: "chunksize s1 = ?cs" "shift s1 = shift s"
    by (simp_all add: s1_def getChunk_def)
  have main: "offset mod ?cs + nat n \<le> ?cs \<and> length buf = nat n
      \<and> (offset = stor_size s \<or> offset mod ?cs = 0)
      \<and> stor_size s' = (offset + nat n) mod 2 ^ 64
      \<and> chunksize s' = chunksize s \<and> shift s' = shift s
      \<and> (\<exists>rest. Data s' offset = Inr (buf @ rest))"
  proof (cases "chunk \<ge> nchunks")
    case True
    with A n have "confirmed s1 (chunkToOffset s1 chunk)
        ((chunkToOffset s1 chunk + nat n) mod 2 ^ 64) n = Inr (offset, buf, s')"
      by (simp add: Alloc_def Let_def un newsize_def chunk_def nchunks_def s1_def
          split: if_splits)
    from confirmed_Inr [OF this] have r: "offset = chunkToOffset s1 chunk"
      "length buf = nat n" "stor_size s' = (chunkToOffset s1 chunk + nat n) mod 2 ^ 64"
      "chunksize s' = chunksize s1" "shift s' = shift s1"
      "\<exists>rest. Data s' offset = Inr (buf @ rest)"
      by auto
    have "storOk s1" using ok by (simp add: storOk_def s1_def getChunk_def)
    from chunkToOffset_mod [OF this] have "offset mod ?cs = 0"
      by (simp add: r s1f)
    with r nn s1f show ?thesis by simp
  next
    case False
    with A n have "confirmed s (stor_size s) newsize n = Inr (offset, buf, s')"
      by (simp add: Alloc_def Let_def un newsize_def chunk_def nchunks_def
          split: if_splits)
    from confirmed_Inr [OF this] have r: "offset = stor_size s"
      "length buf = nat n" "stor_size s' = newsize"
      "chunksize s' = chunksize s" "shift s' = shift s"
      "\<exists>rest. Data s' offset = Inr (buf @ rest)"
      by auto
    have fits: "stor_size s mod ?cs + nat n \<le> ?cs"
    proof (cases "shift s = 0")
      case True
      with cs nn show ?thesis by simp
    next
      case sh: False
      then have sh1: "1 \<le> shift s" by simp
      have "chunk = int (newsize div ?cs)"
        unfolding chunk_def by (rule offsetToChunk_nat [OF ok sh1]) (simp add: newsize_def)
      moreover have "nchunks = int (((stor_size s + ?cs - 1) mod 2 ^ 64) div ?cs)"
        unfolding nchunks_def by (rule offsetToChunk_nat [OF ok sh1]) simp
      ultimately have "newsize div ?cs < ((stor_size s + ?cs - 1) mod 2 ^ 64) div ?cs"
        using False by simp
      then have "((stor_size s + nat n) mod (?cs * 2 ^ (64 - shift s))) div ?cs
          < ((stor_size s + ?cs - 1) mod (?cs * 2 ^ (64 - shift s))) div ?cs"
        unfolding newsize_def cs_dvd [OF ok] .
      with cspos nn show ?thesis by (intro no_straddle_fits)
    qed
    with r show ?thesis by (simp add: newsize_def)
  qed
  then show "offset mod ?cs + nat n \<le> ?cs" by simp
  from main show "length buf = nat n" by simp
  from main show "offset = stor_size s \<or> offset mod ?cs = 0" by simp
  from main show "stor_size s' = (offset + nat n) mod 2 ^ 64" by simp
  from main show "chunksize s' = chunksize s" by simp
  from main show "shift s' = shift s" by simp
  from main show "\<exists>rest. Data s' offset = Inr (buf @ rest)" by simp
  from main have "offset mod ?cs + nat n \<le> ?cs" by simp
  with cspos nn(1) show "offset div ?cs = (offset + nat n - 1) div ?cs"
    by (rule same_chunk)
qed


lemma toUint64_int: "x < 2 ^ 64 \<Longrightarrow> toUint64 (int x) = x"
proof -
  assume a: "x < 2 ^ 64"
  have "int x mod 2 ^ 64 = int (x mod 2 ^ 64)" by (simp add: zmod_int)
  then show ?thesis using a by (simp add: toUint64_def)
qed

lemma div_chunk_step:
  fixes old cs m :: nat
  assumes "0 < cs"
  shows "(old + m) div cs = old div cs + (old mod cs + m) div cs"
proof -
  have "(old div cs * cs + (old mod cs + m)) div cs = old div cs + (old mod cs + m) div cs"
    by (rule div_mult_self3) (use assms in simp)
  moreover have "old div cs * cs + (old mod cs + m) = old + m" by simp
  ultimately show ?thesis by (simp only:)
qed

lemma next_chunk_choice:
  fixes old cs n :: nat
  assumes cs: "0 < cs" and n: "0 < n" "n \<le> cs"
  shows "(old + cs - 1) div cs \<le> (old + n) div cs \<Longrightarrow>
           (old + n) div cs * cs = (if old mod cs + n < cs then old else (old div cs + 1) * cs)"
    and "(old + n) div cs < (old + cs - 1) div cs \<Longrightarrow> old mod cs + n < cs"
proof -
  define k where "k = old div cs"
  define r where "r = old mod cs"
  have old: "old = k * cs + r" and r: "r < cs" using cs by (simp_all add: k_def r_def)
  have a: "(old + n) div cs = k + (r + n) div cs"
    unfolding k_def r_def using cs by (rule div_chunk_step)
  have "old + cs - 1 = old + (cs - 1)" using cs by simp
  then have b: "(old + cs - 1) div cs = k + (r + (cs - 1)) div cs"
    unfolding k_def r_def using div_chunk_step [OF cs, of old "cs - 1"] by simp
  have small: "r + n < cs \<Longrightarrow> (r + n) div cs = 0" by simp
  have big: "cs \<le> r + n \<Longrightarrow> (r + n) div cs = 1"
  proof -
    assume "cs \<le> r + n"
    then have "r + n = 1 * cs + (r + n - cs)" by simp
    moreover have "r + n - cs < cs" using r n by simp
    ultimately show ?thesis by (rule div_eqI)
  qed
  have r0: "r = 0 \<Longrightarrow> (r + (cs - 1)) div cs = 0" using cs by simp
  have r1: "0 < r \<Longrightarrow> (r + (cs - 1)) div cs = 1"
  proof -
    assume "0 < r"
    then have "r + (cs - 1) = 1 * cs + (r - 1)" using cs by simp
    moreover have "r - 1 < cs" using r by simp
    ultimately show ?thesis by (rule div_eqI)
  qed
  {
    assume le: "(old + cs - 1) div cs \<le> (old + n) div cs"
    show "(old + n) div cs * cs = (if old mod cs + n < cs then old else (old div cs + 1) * cs)"
    proof (cases "r + n < cs")
      case True
      with le a b small have "(r + (cs - 1)) div cs = 0" by simp
      with r1 have "r = 0" by (cases "r = 0") simp_all
      with True a small old show ?thesis by (simp add: r_def [symmetric] k_def [symmetric])
    next
      case False
      then have "cs \<le> r + n" by simp
      from big [OF this] a False show ?thesis
        by (simp add: r_def [symmetric] k_def [symmetric])
    qed
  }
  {
    assume lt: "(old + n) div cs < (old + cs - 1) div cs"
    show "old mod cs + n < cs"
    proof (rule ccontr)
      assume "\<not> old mod cs + n < cs"
      then have "cs \<le> r + n" by (simp add: r_def)
      from big [OF this] a have "(old + n) div cs = k + 1" by simp
      moreover have "(old + cs - 1) div cs \<le> k + 1"
        unfolding b using r0 r1 by (cases "r = 0") simp_all
      ultimately show False using lt by simp
    qed
  }
qed

text \<open>Where an allocation starts: at the old size while it ends before the end of the
  chunk, at the beginning of the next chunk otherwise.\<close>

lemma Alloc_offset:
  assumes ok: "storOk s" and sh1: "1 \<le> shift s"
    and nowrap: "stor_size s + chunksize s < 2 ^ 64"
    and A: "Alloc s n = Inr (offset, buf, s')"
  shows "offset = (if stor_size s mod chunksize s + nat n < chunksize s then stor_size s
                   else (stor_size s div chunksize s + 1) * chunksize s)"
proof -
  let ?cs = "chunksize s"
  let ?old = "stor_size s"
  from ok have cs: "?cs = 2 ^ shift s" and cspos: "0 < ?cs" by (simp_all add: storOk_def)
  from nowrap have cs64: "?cs < 2 ^ 64" by simp
  from Alloc_Inr_n [OF A] have n: "0 < n" "n \<le> toInt ?cs" by simp_all
  then have "?cs < 2 ^ 63" using toInt_pos_small [OF cs64] by simp
  then have tcs: "toInt ?cs = int ?cs" by (rule toInt_id)
  with n have nle: "n \<le> int ?cs" by simp
  from n nle cs64 have un: "toUint64 n = nat n" by (simp add: toUint64_def)
  from n nle have nn: "0 < nat n" "nat n \<le> ?cs" by simp_all
  from nn nowrap have on64: "?old + nat n < 2 ^ 64" by simp
  then have newsize: "(?old + nat n) mod 2 ^ 64 = ?old + nat n" by simp
  from cspos nowrap have oc64: "?old + ?cs - 1 < 2 ^ 64" by simp
  then have oc: "(?old + ?cs - 1) mod 2 ^ 64 = ?old + ?cs - 1" by simp
  define newsize where "newsize = (?old + nat n) mod 2 ^ 64"
  define chunk where "chunk = offsetToChunk s newsize"
  define nchunks where "nchunks = offsetToChunk s ((?old + ?cs - 1) mod 2 ^ 64)"
  define s1 where "s1 = (if chunk \<ge> int (length (chunks s)) then getChunk s chunk else s)"
  have s1f: "chunksize s1 = ?cs" "shift s1 = shift s" by (simp_all add: s1_def getChunk_def)
  have chunk: "chunk = int ((?old + nat n) div ?cs)"
    unfolding chunk_def newsize_def newsize using offsetToChunk_nat [OF ok sh1 on64] .
  have nchunks: "nchunks = int ((?old + ?cs - 1) div ?cs)"
    unfolding nchunks_def oc using offsetToChunk_nat [OF ok sh1 oc64] .
  show ?thesis
  proof (cases "chunk \<ge> nchunks")
    case True
    with A n have "confirmed s1 (chunkToOffset s1 chunk)
        ((chunkToOffset s1 chunk + nat n) mod 2 ^ 64) n = Inr (offset, buf, s')"
      by (simp add: Alloc_def Let_def un newsize_def chunk_def nchunks_def s1_def
          split: if_splits)
    from confirmed_Inr [OF this] have off: "offset = chunkToOffset s1 chunk" by simp
    let ?c = "(?old + nat n) div ?cs"
    have "?c * ?cs \<le> ?old + nat n" by (rule div_times_less_eq_dividend)
    then have c64: "?c * ?cs < 2 ^ 64" using on64 by (rule le_less_trans)
    have "?c \<le> ?c * ?cs" using cspos by (cases "?cs") simp_all
    then have "?c < 2 ^ 64" using c64 by (rule le_less_trans)
    then have "toUint64 (int ?c) = ?c" by (rule toUint64_int)
    then have "chunkToOffset s1 chunk = ?c * ?cs"
      unfolding chunkToOffset_def chunk s1f using c64 by (simp add: cs)
    moreover from True have "(?old + ?cs - 1) div ?cs \<le> ?c" unfolding chunk nchunks by simp
    from next_chunk_choice(1) [OF cspos nn this]
    have "?c * ?cs = (if ?old mod ?cs + nat n < ?cs then ?old else (?old div ?cs + 1) * ?cs)" .
    ultimately show ?thesis using off by simp
  next
    case False
    with A n have "confirmed s ?old newsize n = Inr (offset, buf, s')"
      by (simp add: Alloc_def Let_def un newsize_def chunk_def nchunks_def
          split: if_splits)
    from confirmed_Inr [OF this] have off: "offset = ?old" by simp
    from False have "(?old + nat n) div ?cs < (?old + ?cs - 1) div ?cs"
      unfolding chunk nchunks by simp
    from next_chunk_choice(2) [OF cspos nn this] off show ?thesis by simp
  qed
qed

text \<open>
  C3. A successful \<open>Alloc(n)\<close> was asked for between 1 and chunk-size bytes; the range
  \<open>[offset, offset + n)\<close> lies in one chunk (index in the chunk plus \<open>n\<close> is at most the
  chunk size: first and last byte have the same chunk number); it starts at the old size
  or at a chunk's beginning, namely (for a chunk size of at least 2 and sizes that do not
  wrap around) at the old size while it ends before the end of the current chunk and at
  the beginning of the next chunk otherwise, the tail of the current chunk left unused;
  the slice has length \<open>n\<close>; and \<open>Alloc\<close> fails for \<open>n\<close> above the chunk size.
\<close>

theorem Alloc_chunk_local:
  assumes ok: "storOk s"
  shows "(int (chunksize s) < n \<longrightarrow> Alloc s n = Inl AssertFailed)
       \<and> (\<forall>offset buf s'. Alloc s n = Inr (offset, buf, s') \<longrightarrow>
            0 < n \<and> n \<le> int (chunksize s)
          \<and> offset mod chunksize s + nat n \<le> chunksize s
          \<and> offset div chunksize s = (offset + nat n - 1) div chunksize s
          \<and> length buf = nat n
          \<and> (offset = stor_size s \<or> offset mod chunksize s = 0)
          \<and> (1 \<le> shift s \<and> stor_size s + chunksize s < 2 ^ 64 \<longrightarrow>
               offset = (if stor_size s mod chunksize s + nat n < chunksize s
                         then stor_size s
                         else (stor_size s div chunksize s + 1) * chunksize s))
          \<and> stor_size s' = (offset + nat n) mod 2 ^ 64)"
proof -
  have "int (chunksize s) < n \<longrightarrow> Alloc s n = Inl AssertFailed"
    using Alloc_facts [OF ok, of n] by (rule conjunct1)
  moreover have "\<forall>offset buf s'. Alloc s n = Inr (offset, buf, s') \<longrightarrow>
            0 < n \<and> n \<le> int (chunksize s)
          \<and> offset mod chunksize s + nat n \<le> chunksize s
          \<and> offset div chunksize s = (offset + nat n - 1) div chunksize s
          \<and> length buf = nat n
          \<and> (offset = stor_size s \<or> offset mod chunksize s = 0)
          \<and> (1 \<le> shift s \<and> stor_size s + chunksize s < 2 ^ 64 \<longrightarrow>
               offset = (if stor_size s mod chunksize s + nat n < chunksize s
                         then stor_size s
                         else (stor_size s div chunksize s + 1) * chunksize s))
          \<and> stor_size s' = (offset + nat n) mod 2 ^ 64"
  proof (intro allI impI)
    fix offset buf s'
    assume A: "Alloc s n = Inr (offset, buf, s')"
    have "1 \<le> shift s \<and> stor_size s + chunksize s < 2 ^ 64 \<longrightarrow>
               offset = (if stor_size s mod chunksize s + nat n < chunksize s
                         then stor_size s
                         else (stor_size s div chunksize s + 1) * chunksize s)"
      using Alloc_offset [OF ok _ _ A] by blast
    with A Alloc_facts [OF ok, of n] show "0 < n \<and> n \<le> int (chunksize s)
          \<and> offset mod chunksize s + nat n \<le> chunksize s
          \<and> offset div chunksize s = (offset + nat n - 1) div chunksize s
          \<and> length buf = nat n
          \<and> (offset = stor_size s \<or> offset mod chunksize s = 0)
          \<and> (1 \<le> shift s \<and> stor_size s + chunksize s < 2 ^ 64 \<longrightarrow>
               offset = (if stor_size s mod chunksize s + nat n < chunksize s
                         then stor_size s
                         else (stor_size s div chunksize s + 1) * chunksize s))
          \<and> stor_size s' = (offset + nat n) mod 2 ^ 64"
      by simp
  qed
  ultimately show ?thesis by (rule conjI)
qed

theorem Alloc_chunk_local_witness:
  "storOk \<lparr>impl_Get = (\<lambda>_. replicate 16 0), chunksize = 16, threshold = 12, shift = 4,
            stor_size = 5, chunks = [replicate 16 0]\<rparr>
   \<and> Alloc \<lparr>impl_Get = (\<lambda>_. replicate 16 0), chunksize = 16, threshold = 12, shift = 4,
            stor_size = 5, chunks = [replicate 16 0]\<rparr> 12
       = Inr (16, replicate 12 0,
           \<lparr>impl_Get = (\<lambda>_. replicate 16 0), chunksize = 16, threshold = 12, shift = 4,
            stor_size = 28, chunks = [replicate 16 0, replicate 16 0]\<rparr>)
   \<and> (16::nat) div 16 = (16 + 12 - 1) div 16
   \<and> (16::nat) = (5 div 16 + 1) * 16
   \<and> Alloc \<lparr>impl_Get = (\<lambda>_. replicate 16 0), chunksize = 16, threshold = 12, shift = 4,
            stor_size = 5, chunks = [replicate 16 0]\<rparr> 3
       = Inr (5, replicate 3 0,
           \<lparr>impl_Get = (\<lambda>_. replicate 16 0), chunksize = 16, threshold = 12, shift = 4,
            stor_size = 8, chunks = [replicate 16 0]\<rparr>)
   \<and> Alloc \<lparr>impl_Get = (\<lambda>_. replicate 16 0), chunksize = 16, threshold = 12, shift = 4,
            stor_size = 5, chunks = [replicate 16 0]\<rparr> 17 = Inl AssertFailed"
proof -
  let ?s = "\<lparr>impl_Get = (\<lambda>_. replicate 16 0), chunksize = 16, threshold = 12, shift = 4,
            stor_size = 5, chunks = [replicate 16 (0::nat)]\<rparr>"
  have ok: "storOk ?s" by (simp add: storOk_def)
  have c: "confirmed \<lparr>impl_Get = (\<lambda>_. replicate 16 0), chunksize = 16, threshold = 12, shift = 4,
            stor_size = 5, chunks = [replicate 16 0, replicate 16 0]\<rparr> 16 28 12
       = Inr (16, replicate 12 0,
           \<lparr>impl_Get = (\<lambda>_. replicate 16 0), chunksize = 16, threshold = 12, shift = 4,
            stor_size = 28, chunks = [replicate 16 0, replicate 16 0]\<rparr>)"
    by (simp add: confirmed_def toUint64_def Let_def Data_def offsetToChunk_def toInt_def)
  have a: "Alloc ?s 12 = Inr (16, replicate 12 0,
           \<lparr>impl_Get = (\<lambda>_. replicate 16 0), chunksize = 16, threshold = 12, shift = 4,
            stor_size = 28, chunks = [replicate 16 0, replicate 16 0]\<rparr>)"
    by (simp add: Alloc_def toInt_def toUint64_def closedSize_def offsetToChunk_def Let_def
        chunkToOffset_def getChunk_def c)
  have c3: "confirmed ?s 5 8 3
       = Inr (5, replicate 3 0,
           \<lparr>impl_Get = (\<lambda>_. replicate 16 0), chunksize = 16, threshold = 12, shift = 4,
            stor_size = 8, chunks = [replicate 16 0]\<rparr>)"
    by (simp add: confirmed_def toUint64_def Let_def Data_def offsetToChunk_def toInt_def)
  have a3: "Alloc ?s 3 = Inr (5, replicate 3 0,
           \<lparr>impl_Get = (\<lambda>_. replicate 16 0), chunksize = 16, threshold = 12, shift = 4,
            stor_size = 8, chunks = [replicate 16 0]\<rparr>)"
    by (simp add: Alloc_def toInt_def toUint64_def closedSize_def offsetToChunk_def Let_def
        chunkToOffset_def getChunk_def c3)
  show ?thesis
    using ok a a3 Alloc_chunk_local [OF ok, of 12] Alloc_chunk_local [OF ok, of 17] by simp
qed

section \<open>The state root (db19/state.go)\<close>

text \<open>Sequencing of operations that can panic.\<close>

definition andThen :: "'e + 'a \<Rightarrow> ('a \<Rightarrow> 'e + 'b) \<Rightarrow> 'e + 'b" where
  "andThen r f = (case r of Inl e \<Rightarrow> Inl e | Inr x \<Rightarrow> f x)"

definition magic1 :: "byte list" where
  "magic1 = [0x01, 0x23, 0x45, 0x67, 0x89, 0xab, 0xcd, 0xef]"

definition magic2 :: "byte list" where
  "magic2 = [0xfe, 0xdc, 0xba, 0x98, 0x76, 0x54, 0x32, 0x10]"



definition smallOffsetBytes :: "nat \<Rightarrow> byte list" where
  "smallOffsetBytes off =
     [off mod 256, off div 2 ^ 8 mod 256, off div 2 ^ 16 mod 256, off div 2 ^ 24 mod 256,
      off div 2 ^ 32 mod 256]"



text \<open>\<open>binary.BigEndian.PutUint64\<close> and \<open>Uint64\<close> of the standard library.\<close>

definition bigEndian64 :: "nat \<Rightarrow> byte list" where
  "bigEndian64 v =
     [v div 2 ^ 56 mod 256, v div 2 ^ 48 mod 256, v div 2 ^ 40 mod 256, v div 2 ^ 32 mod 256,
      v div 2 ^ 24 mod 256, v div 2 ^ 16 mod 256, v div 2 ^ 8 mod 256, v mod 256]"














text \<open>The record layout in the spec's words:
  \<open>magic1(8) || unix-time(8 BE) || meta-offsets(Noffsets x 5) || cksum(4) || magic2(8)\<close>,
  the checksum covering everything before it.\<close>

definition stateBody :: "nat list \<Rightarrow> int \<Rightarrow> byte list" where
  "stateBody offsets t = magic1 @ bigEndian64 (toUint64 t) @ concat (map smallOffsetBytes offsets)"



subsection \<open>Writing and reading back\<close>


lemma andThen_Inl [simp]: "andThen (Inl e) f = Inl e"
  by (simp add: andThen_def)













lemma length_smallOffsetBytes [simp]: "length (smallOffsetBytes x) = 5"
  by (simp add: smallOffsetBytes_def)

lemma length_bigEndian64 [simp]: "length (bigEndian64 x) = 8"
  by (simp add: bigEndian64_def)

lemma length_magic [simp]: "length magic1 = 8" "length magic2 = 8"
  by (simp_all add: magic1_def magic2_def)

lemma length_concat_smallOffsetBytes [simp]:
  "length (concat (map smallOffsetBytes offs)) = 5 * length offs"
  by (induction offs) simp_all



lemma length_stateBody [simp]: "length (stateBody offsets t) = 16 + 5 * length offsets"
  by (simp add: stateBody_def)












section \<open>TempIndex: rows of several records (dbms/query/tempindex.go)\<close>



definition heapChunkSize :: nat where
  "heapChunkSize = 16 * 1024"














subsection \<open>Storing a row and reading it back\<close>


















section \<open>Merging an mbtree into an fbtree (database/btree/merge.go)\<close>

text \<open>
  Modelled from the spec: \<open>fbtree\<close>, \<open>fbupdate\<close> and \<open>mbtree\<close> with their methods
  \<open>Update\<close>, \<open>Insert\<close> and \<open>ForEach\<close> are not under src/. An fbtree is an immutable
  ordered map from keys to offsets, here its entries in key order; \<open>Update\<close> hands a
  copy to the function and returns what it leaves; \<open>Insert\<close> puts a key in its place,
  taking precedence over a same-key entry. An mbtree holds recent inserts and deletes:
  its entries in key order, each with its marker; \<open>ForEach\<close> calls the function with the
  key and the offset of every entry (the callback's signature has nothing else).
\<close>

type_synonym fbtree = "(string \<times> nat) list"

datatype marker = InsertMarker | DeleteMarker

type_synonym mbtree = "(string \<times> nat \<times> marker) list"

fun Insert :: "fbtree \<Rightarrow> string \<Rightarrow> nat \<Rightarrow> fbtree" where
  "Insert [] key off = [(key, off)]"
| "Insert ((k, v) # es) key off =
     (if key < k then (key, off) # (k, v) # es
      else if key = k then (key, off) # es
      else (k, v) # Insert es key off)"

definition Update :: "fbtree \<Rightarrow> (fbtree \<Rightarrow> fbtree) \<Rightarrow> fbtree" where
  "Update fb fn = fn fb"

definition ForEach :: "mbtree \<Rightarrow> (string \<Rightarrow> nat \<Rightarrow> 's \<Rightarrow> 's) \<Rightarrow> 's \<Rightarrow> 's" where
  "ForEach mb fn s = fold (\<lambda>(key, off, m). fn key off) mb s"

text \<open>\<open>Merge(fb, mb)\<close>, as the source has it: every entry of the mbtree is inserted
  (the source's comment: TODO deletes).\<close>

definition Merge :: "fbtree \<Rightarrow> mbtree \<Rightarrow> fbtree" where
  "Merge fb mb = Update fb (\<lambda>up. ForEach mb (\<lambda>key off up1. Insert up1 key off) up)"

text \<open>Looking a key up in an fbtree.\<close>

definition lookup :: "fbtree \<Rightarrow> string \<Rightarrow> nat option" where
  "lookup fb key = map_of fb key"

lemma lookup_Insert: "lookup (Insert fb key off) = (lookup fb)(key \<mapsto> off)"
  unfolding lookup_def by (induction fb key off rule: Insert.induct) auto

lemma lookup_fold_Insert:
  "lookup (fold (\<lambda>(key, off, m) up. Insert up key off) mb fb) k =
     (case map_of (rev mb) k of None \<Rightarrow> lookup fb k | Some (off, m) \<Rightarrow> Some off)"
proof (induction mb arbitrary: fb)
  case Nil
  then show ?case by simp
next
  case (Cons e mb)
  obtain key off m where e: "e = (key, off, m)" by (cases e)
  show ?case
    by (simp add: e Cons.IH lookup_Insert map_add_def split: option.splits)
qed

text \<open>The inserts of C1 hold: a key that the mbtree holds once is in the result with
  the mbtree's offset, whatever the fbtree held for it.\<close>

lemma Merge_inserts:
  assumes "distinct (map fst mb)" and "(key, off, m) \<in> set mb"
  shows "lookup (Merge fb mb) key = Some off"
proof -
  from assms have "map_of (rev mb) key = Some (off, m)"
    by (intro map_of_is_SomeI) (simp_all add: distinct_rev rev_map [symmetric])
  then show ?thesis
    by (simp add: Merge_def Update_def ForEach_def lookup_fold_Insert)
qed

text \<open>
  C1 fails on the code for deletes: \<open>Merge\<close> hands every entry of the mbtree to
  \<open>Insert\<close>, so a key under a delete marker stays in the result (here with the offset of
  the delete entry) instead of being absent.
\<close>

theorem Merge_keeps_deleted_key:
  "Merge [(''a'', 1), (''b'', 2)] [(''a'', 1, DeleteMarker)] = [(''a'', 1), (''b'', 2)]
   \<and> lookup (Merge [(''a'', 1), (''b'', 2)] [(''a'', 1, DeleteMarker)]) ''a'' = Some 1"
  by (simp add: Merge_def Update_def ForEach_def lookup_def)

section \<open>Union by merge (dbms/query/union.go)\<close>

text \<open>
  Modelled from the spec: the type \<open>Dir\<close>, \<open>Row\<close> with \<open>JoinRows\<close> and
  \<open>GetRawVal\<close>, and the source queries are not under src/. A direction is \<open>Next\<close> or
  \<open>Prev\<close>; the zero value of the field \<open>prevDir\<close> is neither (\<open>None\<close>). A row is
  given by the raw values of its columns in the order of \<open>mergeCols\<close> (the key index
  first, then the other columns). \<open>JoinRows(row1, empty2)\<close> and
  \<open>JoinRows(empty1, row2)\<close> are kept apart by the side the row came from.
\<close>

datatype Dir = Next | Prev

type_synonym row = "string list"

datatype joined = JoinRows_1 row | JoinRows_2 row

fun joinedRow :: "joined \<Rightarrow> row" where
  "joinedRow (JoinRows_1 r) = r"
| "joinedRow (JoinRows_2 r) = r"

text \<open>
  Modelled from the spec: a source is a bidirectional, rewindable iterator over its rows
  in key order. Rewound, \<open>Get(Next)\<close> gives the first row and \<open>Get(Prev)\<close> the last; at
  a row, \<open>Get\<close> moves to the neighbour; past either end it returns nil and stays at end
  of file until it is rewound (which is why \<open>getMerge\<close> rewinds a source whose row is
  nil before it turns round).
\<close>

datatype pos = Rewound | At nat | Eof

record Source =
  src_rows :: "row list"
  src_pos :: pos

definition Source_Rewind :: "Source \<Rightarrow> Source" where
  "Source_Rewind s = s\<lparr>src_pos := Rewound\<rparr>"

definition Source_Get :: "Source \<Rightarrow> Dir \<Rightarrow> row option \<times> Source" where
  "Source_Get s dir =
     (let rs = src_rows s
      in case src_pos s of
           Eof \<Rightarrow> (None, s)
         | Rewound \<Rightarrow>
             (if rs = [] then (None, s\<lparr>src_pos := Eof\<rparr>)
              else if dir = Next then (Some (rs ! 0), s\<lparr>src_pos := At 0\<rparr>)
              else (Some (rs ! (length rs - 1)), s\<lparr>src_pos := At (length rs - 1)\<rparr>))
         | At i \<Rightarrow>
             (if dir = Next
              then (if Suc i < length rs then (Some (rs ! Suc i), s\<lparr>src_pos := At (Suc i)\<rparr>)
                    else (None, s\<lparr>src_pos := Eof\<rparr>))
              else (if 0 < i \<and> i \<le> length rs then (Some (rs ! (i - 1)), s\<lparr>src_pos := At (i - 1)\<rparr>)
                    else (None, s\<lparr>src_pos := Eof\<rparr>))))"

text \<open>The fields of \<open>Union\<close> that \<open>getMerge\<close> uses.\<close>

record UnionMerge =
  source1 :: Source
  source2 :: Source
  rewound :: bool
  src1 :: bool
  src2 :: bool
  row1 :: "row option"
  row2 :: "row option"
  prevDir :: "Dir option"

text \<open>\<open>strings.Compare\<close> and \<open>Union.compare\<close>, which compares the raw values column
  by column.\<close>

definition strings_Compare :: "string \<Rightarrow> string \<Rightarrow> int" where
  "strings_Compare a b = (if a = b then 0 else if a < b then - 1 else 1)"

fun compare :: "row \<Rightarrow> row \<Rightarrow> int" where
  "compare (x1 # r1) (x2 # r2) =
     (let c = strings_Compare x1 x2 in if c \<noteq> 0 then c else compare r1 r2)"
| "compare _ _ = 0"

text \<open>The closures \<open>get1\<close> and \<open>get2\<close> of \<open>getMerge\<close>.\<close>

definition get1 :: "Dir \<Rightarrow> UnionMerge \<Rightarrow> UnionMerge" where
  "get1 dir u =
     (let s = (if Some dir \<noteq> prevDir u \<and> row1 u = None then Source_Rewind (source1 u)
               else source1 u);
          (r, s1) = Source_Get s dir
      in u\<lparr>source1 := s1, row1 := r\<rparr>)"

definition get2 :: "Dir \<Rightarrow> UnionMerge \<Rightarrow> UnionMerge" where
  "get2 dir u =
     (let s = (if Some dir \<noteq> prevDir u \<and> row2 u = None then Source_Rewind (source2 u)
               else source2 u);
          (r, s2) = Source_Get s dir
      in u\<lparr>source2 := s2, row2 := r\<rparr>)"

text \<open>"refill row1 and row2".\<close>

definition refill :: "Dir \<Rightarrow> UnionMerge \<Rightarrow> UnionMerge" where
  "refill dir u =
     (if rewound u \<or> (src1 u \<and> src2 u) then get2 dir (get1 dir u)
      else if src1 u then
        (let u1 = get1 dir u in if Some dir \<noteq> prevDir u then get2 dir u1 else u1)
      else if src2 u then
        (let u2 = get2 dir u in if Some dir \<noteq> prevDir u then get1 dir u2 else u2)
      else u)"

definition getMerge :: "UnionMerge \<Rightarrow> Dir \<Rightarrow> joined option \<times> UnionMerge" where
  "getMerge u0 dir =
     (let u = (refill dir u0)\<lparr>prevDir := Some dir, src1 := False, src2 := False\<rparr>
      in case (row1 u, row2 u) of
           (None, None) \<Rightarrow> (None, u\<lparr>src1 := True, src2 := True\<rparr>)
         | (Some r1, None) \<Rightarrow> (Some (JoinRows_1 r1), u\<lparr>src1 := True\<rparr>)
         | (None, Some r2) \<Rightarrow> (Some (JoinRows_2 r2), u\<lparr>src2 := True\<rparr>)
         | (Some r1, Some r2) \<Rightarrow>
             (let cmp = compare r1 r2
              in if cmp = 0 then (Some (JoinRows_1 r1), u\<lparr>src1 := True, src2 := True\<rparr>)
                 else
                   let cmp1 = (if dir = Prev then cmp * (- 1) else cmp)
                   in if cmp1 < 0 then (Some (JoinRows_1 r1), u\<lparr>src1 := True\<rparr>)
                      else (Some (JoinRows_2 r2), u\<lparr>src2 := True\<rparr>)))"

text \<open>\<open>Union.Get\<close> with the merge strategy (the deferred function clears \<open>rewound\<close>)
  and \<open>Union.Rewind\<close>.\<close>

definition Union_Get :: "UnionMerge \<Rightarrow> Dir \<Rightarrow> joined option \<times> UnionMerge" where
  "Union_Get u dir = (let (r, u1) = getMerge u dir in (r, u1\<lparr>rewound := False\<rparr>))"

definition Union_Rewind :: "UnionMerge \<Rightarrow> UnionMerge" where
  "Union_Rewind u =
     u\<lparr>source1 := Source_Rewind (source1 u), source2 := Source_Rewind (source2 u),
       rewound := True\<rparr>"

text \<open>The union as \<open>setApproach\<close> leaves it, over two sources with the given rows.\<close>

definition newUnion :: "row list \<Rightarrow> row list \<Rightarrow> UnionMerge" where
  "newUnion xs ys =
     \<lparr>source1 = \<lparr>src_rows = xs, src_pos = Rewound\<rparr>,
      source2 = \<lparr>src_rows = ys, src_pos = Rewound\<rparr>,
      rewound = True, src1 = False, src2 = False, row1 = None, row2 = None, prevDir = None\<rparr>"

text \<open>What a client does with the iterator: calls of \<open>Get(Next)\<close>, \<open>Get(Prev)\<close> and
  \<open>Rewind\<close> in any order. The run collects what the \<open>Get\<close>s report.\<close>

datatype call = Get Dir | Rewind

fun runUnion :: "UnionMerge \<Rightarrow> call list \<Rightarrow> joined option list" where
  "runUnion u [] = []"
| "runUnion u (Get dir # cs) = (let (r, u1) = Union_Get u dir in r # runUnion u1 cs)"
| "runUnion u (Rewind # cs) = runUnion (Union_Rewind u) cs"

text \<open>
  The logical cursor of the claim, over the rows of the union in order: rewound, at the
  row of index \<open>i\<close>, or off the end it ran over in direction \<open>d\<close>. Off the end, a
  further step in the same direction reports nil again, a step in the opposite direction
  starts from the other end, as after a rewind.
\<close>

datatype cursor = CRewound | CAt nat | CEnd Dir

definition cursorStart :: "row list \<Rightarrow> Dir \<Rightarrow> row option \<times> cursor" where
  "cursorStart m dir =
     (if m = [] then (None, CEnd dir)
      else if dir = Next then (Some (m ! 0), CAt 0)
      else (Some (m ! (length m - 1)), CAt (length m - 1)))"

definition cursorGet :: "row list \<Rightarrow> cursor \<Rightarrow> Dir \<Rightarrow> row option \<times> cursor" where
  "cursorGet m c dir =
     (case c of
        CRewound \<Rightarrow> cursorStart m dir
      | CEnd d \<Rightarrow> (if d = dir then (None, CEnd d) else cursorStart m dir)
      | CAt i \<Rightarrow>
          (if dir = Next
           then (if Suc i < length m then (Some (m ! Suc i), CAt (Suc i)) else (None, CEnd dir))
           else (if 0 < i then (Some (m ! (i - 1)), CAt (i - 1)) else (None, CEnd dir))))"

fun runCursor :: "row list \<Rightarrow> cursor \<Rightarrow> call list \<Rightarrow> row option list" where
  "runCursor m c [] = []"
| "runCursor m c (Get dir # cs) = (let (r, c1) = cursorGet m c dir in r # runCursor m c1 cs)"
| "runCursor m c (Rewind # cs) = runCursor m CRewound cs"

text \<open>The duplicate-free ordered union of the rows of two sources.\<close>

definition unionRows :: "row list \<Rightarrow> row list \<Rightarrow> row list" where
  "unionRows xs ys = sorted_list_of_set (set xs \<union> set ys)"


subsection \<open>Rows in order\<close>

definition beyond :: "Dir \<Rightarrow> row \<Rightarrow> row \<Rightarrow> bool" where
  "beyond d x y = (case d of Next \<Rightarrow> x < y | Prev \<Rightarrow> y < x)"

definition atOrBeyond :: "Dir \<Rightarrow> row \<Rightarrow> row \<Rightarrow> bool" where
  "atOrBeyond d x y = (case d of Next \<Rightarrow> x \<le> y | Prev \<Rightarrow> y \<le> x)"

definition isFirst :: "Dir \<Rightarrow> row set \<Rightarrow> (row \<Rightarrow> bool) \<Rightarrow> row option \<Rightarrow> bool" where
  "isFirst d S P res =
     (case res of
        None \<Rightarrow> (\<forall>z \<in> S. \<not> P z)
      | Some y \<Rightarrow> y \<in> S \<and> P y \<and> (\<forall>z \<in> S. P z \<longrightarrow> atOrBeyond d y z))"

definition upClosed :: "Dir \<Rightarrow> (row \<Rightarrow> bool) \<Rightarrow> bool" where
  "upClosed d P = (\<forall>a b. P a \<longrightarrow> atOrBeyond d a b \<longrightarrow> P b)"

lemma atOrBeyond_refl [simp]: "atOrBeyond d x x"
  by (cases d) (simp_all add: atOrBeyond_def)

lemma atOrBeyond_antisym: "atOrBeyond d x y \<Longrightarrow> atOrBeyond d y x \<Longrightarrow> x = y"
  by (cases d) (simp_all add: atOrBeyond_def)

lemma atOrBeyond_trans: "atOrBeyond d x y \<Longrightarrow> atOrBeyond d y z \<Longrightarrow> atOrBeyond d x z"
  by (cases d) (auto simp: atOrBeyond_def)

lemma atOrBeyond_total: "atOrBeyond d x y \<or> atOrBeyond d y x"
  by (cases d) (auto simp: atOrBeyond_def)

lemma beyond_iff: "beyond d x y \<longleftrightarrow> atOrBeyond d x y \<and> x \<noteq> y"
  by (cases d) (auto simp: beyond_def atOrBeyond_def)

lemma beyond_not: "beyond d x y \<longleftrightarrow> \<not> atOrBeyond d y x"
  by (cases d) (auto simp: beyond_def atOrBeyond_def)

lemma turn_beyond: "d \<noteq> d0 \<Longrightarrow> beyond d x y \<longleftrightarrow> \<not> atOrBeyond d0 x y"
  by (cases d; cases d0) (auto simp: beyond_def atOrBeyond_def)

lemma upClosed_beyond: "upClosed d (beyond d r)"
  by (cases d) (auto simp: upClosed_def beyond_def atOrBeyond_def)

lemma upClosed_True: "upClosed d (\<lambda>_. True)"
  by (simp add: upClosed_def)

lemma isFirst_unique: "isFirst d S P a \<Longrightarrow> isFirst d S P b \<Longrightarrow> a = b"
  by (cases a; cases b) (auto simp: isFirst_def intro: atOrBeyond_antisym)

lemma isFirst_cong: "\<forall>z \<in> S. P z = Q z \<Longrightarrow> isFirst d S P a = isFirst d S Q a"
  by (cases a) (auto simp: isFirst_def)

lemma isFirst_None_False: "isFirst d S (\<lambda>_. False) None"
  by (simp add: isFirst_def)

text \<open>A row that was not consumed stays the first one strictly beyond \<open>r\<close>.\<close>

lemma isFirst_keep:
  assumes "isFirst d S (atOrBeyond d r) a" and "a \<noteq> Some r"
  shows "isFirst d S (beyond d r) a"
  using assms by (cases a) (auto simp: isFirst_def beyond_iff)

text \<open>After the step to \<open>r'\<close>, each side holds the first row at or beyond \<open>r'\<close>.\<close>

lemma isFirst_advance:
  assumes "isFirst d S P a" and "upClosed d P" and "P r'"
    and "\<forall>y. a = Some y \<longrightarrow> atOrBeyond d r' y"
  shows "isFirst d S (atOrBeyond d r') a"
proof (cases a)
  case None
  with assms(1) have "\<forall>z \<in> S. \<not> P z" by (simp add: isFirst_def)
  moreover have "\<forall>z. atOrBeyond d r' z \<longrightarrow> P z"
    using assms(2,3) by (auto simp: upClosed_def)
  ultimately show ?thesis using None by (auto simp: isFirst_def)
next
  case (Some y)
  have up: "\<forall>z. atOrBeyond d r' z \<longrightarrow> P z"
    using assms(2,3) by (auto simp: upClosed_def)
  from Some assms(1) have "y \<in> S" "\<forall>z \<in> S. P z \<longrightarrow> atOrBeyond d y z"
    by (simp_all add: isFirst_def)
  with Some assms(4) up show ?thesis by (auto simp: isFirst_def)
qed

text \<open>A row of the set at which a side stands is that side's row.\<close>

lemma isFirst_member:
  assumes "isFirst d S (atOrBeyond d r) a" and "r \<in> S"
  shows "a = Some r"
proof (cases a)
  case None
  with assms show ?thesis by (auto simp: isFirst_def)
next
  case (Some y)
  with assms have "atOrBeyond d r y" "atOrBeyond d y r" by (auto simp: isFirst_def)
  then have "r = y" by (rule atOrBeyond_antisym)
  with Some show ?thesis by simp
qed

text \<open>Turning round at a row that was not consumed: what lies beyond \<open>r\<close> in the new
  direction is what lies beyond the side's row, or everything when the side has none.\<close>

lemma turn_None:
  assumes "isFirst d0 S (atOrBeyond d0 r) None" and "d \<noteq> d0"
  shows "\<forall>z \<in> S. (True = beyond d r z)"
  using assms by (auto simp: isFirst_def turn_beyond)

lemma turn_Some:
  assumes "isFirst d0 S (atOrBeyond d0 r) (Some y)" and "y \<noteq> r" and "d \<noteq> d0"
  shows "\<forall>z \<in> S. (beyond d y z = beyond d r z)"
proof
  fix z assume z: "z \<in> S"
  from assms(1) have y: "atOrBeyond d0 r y" and min: "\<forall>z \<in> S. atOrBeyond d0 r z \<longrightarrow> atOrBeyond d0 y z"
    by (simp_all add: isFirst_def)
  show "beyond d y z = beyond d r z"
  proof
    assume "beyond d y z"
    then have "\<not> atOrBeyond d0 y z" using assms(3) by (simp add: turn_beyond)
    with min z have "\<not> atOrBeyond d0 r z" by blast
    then show "beyond d r z" using assms(3) by (simp add: turn_beyond)
  next
    assume "beyond d r z"
    then have "\<not> atOrBeyond d0 r z" using assms(3) by (simp add: turn_beyond)
    with y have "\<not> atOrBeyond d0 y z" using atOrBeyond_trans by blast
    then show "beyond d y z" using assms(3) by (simp add: turn_beyond)
  qed
qed

subsection \<open>Strictly sorted lists\<close>

lemma nth_less_iff:
  assumes "sorted_wrt (<) (xs :: row list)" "i < length xs" "j < length xs"
  shows "xs ! i < xs ! j \<longleftrightarrow> i < j"
proof
  assume "i < j"
  with assms show "xs ! i < xs ! j" by (simp add: sorted_wrt_nth_less)
next
  assume l: "xs ! i < xs ! j"
  show "i < j"
  proof (rule ccontr)
    assume "\<not> i < j"
    then have "j = i \<or> j < i" by auto
    then have "xs ! j \<le> xs ! i"
      using assms sorted_wrt_nth_less [of "(<)" xs j i] by auto
    with l show False by simp
  qed
qed

lemma nth_mono:
  assumes "sorted_wrt (<) (xs :: row list)" "i \<le> j" "j < length xs"
  shows "xs ! i \<le> xs ! j"
proof (cases "i = j")
  case True
  then show ?thesis by simp
next
  case False
  with assms have "i < j" by simp
  with assms have "xs ! i < xs ! j" by (simp add: sorted_wrt_nth_less)
  then show ?thesis by simp
qed

lemma isFirst_start_Next:
  assumes "sorted_wrt (<) xs" "xs \<noteq> []"
  shows "isFirst Next (set xs) (\<lambda>_. True) (Some (xs ! 0))"
proof -
  have "\<forall>z \<in> set xs. xs ! 0 \<le> z"
  proof
    fix z assume "z \<in> set xs"
    then obtain j where j: "j < length xs" "z = xs ! j" by (auto simp: in_set_conv_nth)
    with assms nth_mono [of xs 0 j] show "xs ! 0 \<le> z"
      by simp
  qed
  with assms(2) show ?thesis by (simp add: isFirst_def atOrBeyond_def)
qed

lemma isFirst_start_Prev:
  assumes "sorted_wrt (<) xs" "xs \<noteq> []"
  shows "isFirst Prev (set xs) (\<lambda>_. True) (Some (xs ! (length xs - 1)))"
proof -
  have "\<forall>z \<in> set xs. z \<le> xs ! (length xs - 1)"
  proof
    fix z assume "z \<in> set xs"
    then obtain j where j: "j < length xs" "z = xs ! j" by (auto simp: in_set_conv_nth)
    then have "j \<le> length xs - 1" "length xs - 1 < length xs" by simp_all
    with assms(1) have "xs ! j \<le> xs ! (length xs - 1)" by (rule nth_mono)
    with j show "z \<le> xs ! (length xs - 1)" by simp
  qed
  with assms(2) show ?thesis by (simp add: isFirst_def atOrBeyond_def)
qed

lemma isFirst_neighbour_Next:
  assumes "sorted_wrt (<) xs" "i < length xs"
  shows "isFirst Next (set xs) (beyond Next (xs ! i))
           (if Suc i < length xs then Some (xs ! Suc i) else None)"
proof -
  have "\<forall>z \<in> set xs. xs ! i < z \<longrightarrow> Suc i < length xs \<and> xs ! Suc i \<le> z"
  proof (intro ballI impI)
    fix z assume "z \<in> set xs" and l: "xs ! i < z"
    then obtain j where j: "j < length xs" "z = xs ! j" by (auto simp: in_set_conv_nth)
    with l assms have ij: "i < j" by (simp add: nth_less_iff)
    with j have s: "Suc i < length xs" by simp
    have "xs ! Suc i \<le> xs ! j"
      using assms(1) j(1) ij by (intro nth_mono) simp_all
    with s j show "Suc i < length xs \<and> xs ! Suc i \<le> z" by simp
  qed
  moreover have "Suc i < length xs \<longrightarrow> xs ! i < xs ! Suc i"
    using assms by (simp add: sorted_wrt_nth_less)
  ultimately show ?thesis
    by (auto simp: isFirst_def beyond_def atOrBeyond_def)
qed

lemma isFirst_neighbour_Prev:
  assumes "sorted_wrt (<) xs" "i < length xs"
  shows "isFirst Prev (set xs) (beyond Prev (xs ! i))
           (if 0 < i then Some (xs ! (i - 1)) else None)"
proof -
  have "\<forall>z \<in> set xs. z < xs ! i \<longrightarrow> 0 < i \<and> z \<le> xs ! (i - 1)"
  proof (intro ballI impI)
    fix z assume "z \<in> set xs" and l: "z < xs ! i"
    then obtain j where j: "j < length xs" "z = xs ! j" by (auto simp: in_set_conv_nth)
    with l assms have ij: "j < i" by (simp add: nth_less_iff)
    then have s: "0 < i" by simp
    have "xs ! j \<le> xs ! (i - 1)"
      using assms ij by (intro nth_mono) simp_all
    with s j show "0 < i \<and> z \<le> xs ! (i - 1)" by simp
  qed
  moreover have "0 < i \<longrightarrow> xs ! (i - 1) < xs ! i"
    using assms by (simp add: sorted_wrt_nth_less)
  moreover have "xs ! (i - 1) \<in> set xs"
    using assms(2) by simp
  ultimately show ?thesis
    by (auto simp: isFirst_def beyond_def atOrBeyond_def)
qed


subsection \<open>The sources\<close>

text \<open>The source stands at the given row, or at end of file when there is none.\<close>

definition holds :: "Source \<Rightarrow> row option \<Rightarrow> bool" where
  "holds s r =
     (case r of
        None \<Rightarrow> src_pos s = Eof
      | Some y \<Rightarrow> (\<exists>i < length (src_rows s). src_pos s = At i \<and> src_rows s ! i = y))"

lemma Source_Get_rewound:
  assumes "sorted_wrt (<) (src_rows s)" "src_pos s = Rewound" "Source_Get s d = (r, s')"
  shows "isFirst d (set (src_rows s)) (\<lambda>_. True) r \<and> holds s' r \<and> src_rows s' = src_rows s"
proof (cases "src_rows s = []")
  case True
  with assms show ?thesis
    by (auto simp: Source_Get_def isFirst_def holds_def)
next
  case False
  show ?thesis
  proof (cases d)
    case Next
    with assms False isFirst_start_Next [OF assms(1) False] show ?thesis
      by (auto simp: Source_Get_def Let_def holds_def)
  next
    case Prev
    with assms False isFirst_start_Prev [OF assms(1) False] show ?thesis
      by (auto simp: Source_Get_def Let_def holds_def)
  qed
qed

lemma Source_Get_at:
  assumes "sorted_wrt (<) (src_rows s)" "holds s (Some y)" "Source_Get s d = (r, s')"
  shows "isFirst d (set (src_rows s)) (beyond d y) r \<and> holds s' r \<and> src_rows s' = src_rows s"
proof -
  from assms(2) obtain i where i: "i < length (src_rows s)" "src_pos s = At i" "src_rows s ! i = y"
    by (auto simp: holds_def)
  show ?thesis
  proof (cases d)
    case Next
    with assms(3) i isFirst_neighbour_Next [OF assms(1) i(1)] show ?thesis
      by (auto simp: Source_Get_def Let_def holds_def split: if_splits)
  next
    case Prev
    with assms(3) i isFirst_neighbour_Prev [OF assms(1) i(1)] show ?thesis
      by (auto simp: Source_Get_def Let_def holds_def split: if_splits)
  qed
qed

lemma Source_Get_eof: "src_pos s = Eof \<Longrightarrow> Source_Get s d = (None, s)"
  by (simp add: Source_Get_def)

text \<open>What \<open>get1\<close> and \<open>get2\<close> do to their side.\<close>

definition getSide :: "Dir \<Rightarrow> Dir option \<Rightarrow> row option \<Rightarrow> Source \<Rightarrow> row option \<times> Source" where
  "getSide dir pd rk s =
     Source_Get (if Some dir \<noteq> pd \<and> rk = None then Source_Rewind s else s) dir"

lemma get1_getSide:
  "get1 dir u = (case getSide dir (prevDir u) (row1 u) (source1 u) of
                   (r, s) \<Rightarrow> u\<lparr>source1 := s, row1 := r\<rparr>)"
  by (simp add: get1_def getSide_def Let_def)

lemma get2_getSide:
  "get2 dir u = (case getSide dir (prevDir u) (row2 u) (source2 u) of
                   (r, s) \<Rightarrow> u\<lparr>source2 := s, row2 := r\<rparr>)"
  by (simp add: get2_def getSide_def Let_def)

lemma getSide_rewound:
  assumes "sorted_wrt (<) (src_rows s)" "src_pos s = Rewound" "getSide d pd rk s = (r, s')"
  shows "isFirst d (set (src_rows s)) (\<lambda>_. True) r \<and> holds s' r \<and> src_rows s' = src_rows s"
proof -
  have "Source_Rewind s = s" using assms(2) by (simp add: Source_Rewind_def)
  with assms(3) have "Source_Get s d = (r, s')"
    by (cases "Some d \<noteq> pd \<and> rk = None") (simp_all add: getSide_def)
  with assms(1,2) show ?thesis by (rule Source_Get_rewound)
qed

lemma getSide_consumed:
  assumes "sorted_wrt (<) (src_rows s)" "holds s (Some y)" "getSide d pd (Some y) s = (r, s')"
  shows "isFirst d (set (src_rows s)) (beyond d y) r \<and> holds s' r \<and> src_rows s' = src_rows s"
proof -
  from assms(3) have "Source_Get s d = (r, s')" by (simp add: getSide_def)
  with assms(1,2) show ?thesis by (rule Source_Get_at)
qed

lemma getSide_end_same:
  "src_pos s = Eof \<Longrightarrow> getSide d (Some d) None s = (None, s)"
  by (simp add: getSide_def Source_Get_eof)

lemma getSide_end_turn:
  assumes "sorted_wrt (<) (src_rows s)" "d \<noteq> d0" "getSide d (Some d0) None s = (r, s')"
  shows "isFirst d (set (src_rows s)) (\<lambda>_. True) r \<and> holds s' r \<and> src_rows s' = src_rows s"
proof -
  from assms(2,3) have g: "Source_Get (Source_Rewind s) d = (r, s')" by (simp add: getSide_def)
  have "sorted_wrt (<) (src_rows (Source_Rewind s))" "src_pos (Source_Rewind s) = Rewound"
    using assms(1) by (simp_all add: Source_Rewind_def)
  from Source_Get_rewound [OF this g] show ?thesis by (simp add: Source_Rewind_def)
qed

lemma getSide_turn:
  assumes srt: "sorted_wrt (<) (src_rows s)"
    and f: "isFirst d0 (set (src_rows s)) (atOrBeyond d0 x) rk" and h: "holds s rk"
    and ne: "rk \<noteq> Some x" and d: "d \<noteq> d0" and g: "getSide d (Some d0) rk s = (r, s')"
  shows "isFirst d (set (src_rows s)) (beyond d x) r \<and> holds s' r \<and> src_rows s' = src_rows s"
proof (cases rk)
  case None
  from getSide_end_turn [OF srt d g [unfolded None]]
  have a: "isFirst d (set (src_rows s)) (\<lambda>_. True) r" and b: "holds s' r" "src_rows s' = src_rows s"
    by simp_all
  from f None d have "\<forall>z \<in> set (src_rows s). (True = beyond d x z)" by (intro turn_None) simp_all
  from isFirst_cong [OF this] a have "isFirst d (set (src_rows s)) (beyond d x) r" by simp
  with b show ?thesis by simp
next
  case (Some y)
  from getSide_consumed [OF srt h [unfolded Some] g [unfolded Some]]
  have a: "isFirst d (set (src_rows s)) (beyond d y) r" and b: "holds s' r" "src_rows s' = src_rows s"
    by simp_all
  from f Some ne d have "\<forall>z \<in> set (src_rows s). (beyond d y z = beyond d x z)"
    by (intro turn_Some) simp_all
  from isFirst_cong [OF this] a have "isFirst d (set (src_rows s)) (beyond d x) r" by simp
  with b show ?thesis by simp
qed


subsection \<open>Choosing between the two rows\<close>

lemma compare_eq_0: "length a = length b \<Longrightarrow> compare a b = 0 \<longleftrightarrow> a = b"
  by (induction a b rule: compare.induct) (auto simp: strings_Compare_def Let_def)

lemma compare_less_0: "length a = length b \<Longrightarrow> compare a b < 0 \<longleftrightarrow> a < b"
  by (induction a b rule: compare.induct) (auto simp: strings_Compare_def Let_def)

lemma compare_greater_0: "length a = length b \<Longrightarrow> compare a b > 0 \<longleftrightarrow> b < a"
  by (induction a b rule: compare.induct) (auto simp: strings_Compare_def Let_def)

definition pick :: "Dir \<Rightarrow> row option \<Rightarrow> row option \<Rightarrow> row option" where
  "pick d a b =
     (case a of
        None \<Rightarrow> b
      | Some x \<Rightarrow>
          (case b of
             None \<Rightarrow> a
           | Some y \<Rightarrow> if x = y then a else if beyond d x y then a else b))"

lemma pick_isFirst:
  assumes "isFirst d S1 P a" "isFirst d S2 P b"
  shows "isFirst d (S1 \<union> S2) P (pick d a b)"
proof (cases a)
  case None
  with assms show ?thesis by (cases b) (auto simp: pick_def isFirst_def)
next
  case a: (Some x)
  show ?thesis
  proof (cases b)
    case None
    with a assms show ?thesis by (auto simp: pick_def isFirst_def)
  next
    case b: (Some y)
    from assms a b have x: "x \<in> S1" "P x" "\<forall>z \<in> S1. P z \<longrightarrow> atOrBeyond d x z"
      and y: "y \<in> S2" "P y" "\<forall>z \<in> S2. P z \<longrightarrow> atOrBeyond d y z"
      by (simp_all add: isFirst_def)
    show ?thesis
    proof (cases "atOrBeyond d x y")
      case True
      then have p: "pick d a b = Some x"
        by (auto simp: pick_def a b beyond_iff)
      have "\<forall>z \<in> S1 \<union> S2. P z \<longrightarrow> atOrBeyond d x z"
        using x(3) y(3) True atOrBeyond_trans by blast
      with x show ?thesis by (simp add: p isFirst_def)
    next
      case False
      then have yx: "atOrBeyond d y x" using atOrBeyond_total by blast
      from False have p: "pick d a b = Some y"
        by (auto simp: pick_def a b beyond_iff)
      have "\<forall>z \<in> S1 \<union> S2. P z \<longrightarrow> atOrBeyond d y z"
        using x(3) y(3) yx atOrBeyond_trans by blast
      with y show ?thesis by (simp add: p isFirst_def)
    qed
  qed
qed

lemma pick_first:
  assumes "pick d a b = Some r"
  shows "(\<forall>y. a = Some y \<longrightarrow> atOrBeyond d r y) \<and> (\<forall>y. b = Some y \<longrightarrow> atOrBeyond d r y)"
proof -
  have t: "\<And>x y. \<not> atOrBeyond d x y \<Longrightarrow> atOrBeyond d y x"
    using atOrBeyond_total by blast
  from assms show ?thesis
    by (cases a; cases b) (auto simp: pick_def beyond_iff dest: t split: if_splits)
qed

lemma pick_None: "pick d a b = None \<longleftrightarrow> a = None \<and> b = None"
  by (cases a; cases b) (simp_all add: pick_def)

text \<open>What \<open>getMerge\<close> reports and which sides it marks as consumed, in terms of the rows
  after the refill.\<close>

lemma getMerge_pick:
  assumes len: "\<forall>x y. row1 (refill d u) = Some x \<longrightarrow> row2 (refill d u) = Some y \<longrightarrow> length x = length y"
    and g: "getMerge u d = (out, u')"
  shows "map_option joinedRow out = pick d (row1 (refill d u)) (row2 (refill d u))
       \<and> source1 u' = source1 (refill d u) \<and> source2 u' = source2 (refill d u)
       \<and> row1 u' = row1 (refill d u) \<and> row2 u' = row2 (refill d u)
       \<and> prevDir u' = Some d
       \<and> src1 u' = (out = None \<or> row1 u' = map_option joinedRow out)
       \<and> src2 u' = (out = None \<or> row2 u' = map_option joinedRow out)"
proof (cases "row1 (refill d u)")
  case None
  with g show ?thesis
    by (cases "row2 (refill d u)") (auto simp: getMerge_def Let_def pick_def)
next
  case a: (Some x)
  show ?thesis
  proof (cases "row2 (refill d u)")
    case None
    with a g show ?thesis by (auto simp: getMerge_def Let_def pick_def)
  next
    case b: (Some y)
    from len a b have l: "length x = length y" by simp
    note c = compare_eq_0 [OF l] compare_less_0 [OF l] compare_greater_0 [OF l]
    show ?thesis
    proof (cases d)
      case Next
      with a b g c show ?thesis
        by (auto simp: getMerge_def Let_def pick_def beyond_def split: if_splits)
    next
      case Prev
      with a b g c show ?thesis
        by (auto simp: getMerge_def Let_def pick_def beyond_def split: if_splits)
    qed
  qed
qed


subsection \<open>The union against the cursor\<close>

text \<open>The rows a step in direction \<open>d\<close> may report, seen from the cursor.\<close>

definition want :: "row list \<Rightarrow> cursor \<Rightarrow> Dir \<Rightarrow> row \<Rightarrow> bool" where
  "want m c d =
     (case c of
        CRewound \<Rightarrow> (\<lambda>_. True)
      | CAt i \<Rightarrow> beyond d (m ! i)
      | CEnd d0 \<Rightarrow> (if d0 = d then (\<lambda>_. False) else (\<lambda>_. True)))"

text \<open>One side of the union against the cursor: rewound with it; after the row \<open>m ! i\<close>
  was reported in direction \<open>d0\<close>, holding the first row at or beyond it, consumed when
  that is the row itself; at end of file when the cursor is off the end.\<close>

definition sideRel ::
  "row list \<Rightarrow> cursor \<Rightarrow> bool \<Rightarrow> Dir option \<Rightarrow> Source \<Rightarrow> row option \<Rightarrow> bool \<Rightarrow> bool" where
  "sideRel m c rew pd s rk flag =
     (case c of
        CRewound \<Rightarrow> rew \<and> src_pos s = Rewound
      | CAt i \<Rightarrow> \<not> rew \<and> (\<exists>d0. pd = Some d0
            \<and> isFirst d0 (set (src_rows s)) (atOrBeyond d0 (m ! i)) rk \<and> holds s rk
            \<and> flag = (rk = Some (m ! i)))
      | CEnd d0 \<Rightarrow> \<not> rew \<and> pd = Some d0 \<and> rk = None \<and> src_pos s = Eof \<and> flag)"

definition related :: "row list \<Rightarrow> row list \<Rightarrow> UnionMerge \<Rightarrow> cursor \<Rightarrow> bool" where
  "related xs ys u c =
     (src_rows (source1 u) = xs \<and> src_rows (source2 u) = ys
      \<and> (\<forall>i. c = CAt i \<longrightarrow> i < length (unionRows xs ys))
      \<and> sideRel (unionRows xs ys) c (rewound u) (prevDir u) (source1 u) (row1 u) (src1 u)
      \<and> sideRel (unionRows xs ys) c (rewound u) (prevDir u) (source2 u) (row2 u) (src2 u))"

lemma side_step:
  assumes srt: "sorted_wrt (<) (src_rows s)"
    and rel: "sideRel m c rew pd s rk flag"
    and other: "\<forall>i. c = CAt i \<longrightarrow> flag \<or> other"
    and res: "(r', s') = (if rew \<or> flag \<or> (other \<and> Some d \<noteq> pd) then getSide d pd rk s else (rk, s))"
  shows "isFirst d (set (src_rows s)) (want m c d) r' \<and> holds s' r' \<and> src_rows s' = src_rows s"
proof (cases c)
  case CRewound
  with rel have "rew" "src_pos s = Rewound" by (simp_all add: sideRel_def)
  with res have "getSide d pd rk s = (r', s')" by simp
  from getSide_rewound [OF srt \<open>src_pos s = Rewound\<close> this] show ?thesis
    by (simp add: want_def CRewound)
next
  case (CEnd d0)
  with rel have f: "pd = Some d0" "rk = None" "src_pos s = Eof" "flag" by (simp_all add: sideRel_def)
  with res have g: "getSide d (Some d0) None s = (r', s')" by simp
  show ?thesis
  proof (cases "d0 = d")
    case True
    with g getSide_end_same [OF f(3), of d] have "r' = None" "s' = s" by simp_all
    with f True show ?thesis by (simp add: want_def CEnd isFirst_def holds_def)
  next
    case False
    then have "d \<noteq> d0" by simp
    from getSide_end_turn [OF srt this g] False show ?thesis
      by (simp add: want_def CEnd)
  qed
next
  case (CAt i)
  with rel obtain d0 where f: "\<not> rew" "pd = Some d0"
    "isFirst d0 (set (src_rows s)) (atOrBeyond d0 (m ! i)) rk" "holds s rk"
    "flag = (rk = Some (m ! i))"
    by (auto simp: sideRel_def)
  have w: "want m c d = beyond d (m ! i)" by (simp add: want_def CAt)
  show ?thesis
  proof (cases flag)
    case True
    with f have rk: "rk = Some (m ! i)" by simp
    from res True have "getSide d pd (Some (m ! i)) s = (r', s')" by (simp add: rk)
    from getSide_consumed [OF srt f(4) [unfolded rk] this] show ?thesis by (simp add: w)
  next
    case False
    with f have ne: "rk \<noteq> Some (m ! i)" by simp
    from False other CAt have o: "other" by simp
    show ?thesis
    proof (cases "d = d0")
      case True
      with res False f have "r' = rk" "s' = s" by simp_all
      with isFirst_keep [OF f(3) ne] f(4) True w show ?thesis by simp
    next
      case d: False
      with res False f o have "getSide d (Some d0) rk s = (r', s')" by simp
      from getSide_turn [OF srt f(3) f(4) ne d this] show ?thesis by (simp add: w)
    qed
  qed
qed

text \<open>The fields of the union after the refill.\<close>

lemma refill_side1:
  "(row1 (refill d u), source1 (refill d u)) =
     (if rewound u \<or> src1 u \<or> (src2 u \<and> Some d \<noteq> prevDir u)
      then getSide d (prevDir u) (row1 u) (source1 u) else (row1 u, source1 u))"
  by (auto simp: refill_def get1_getSide get2_getSide Let_def split: prod.splits)

lemma refill_side2:
  "(row2 (refill d u), source2 (refill d u)) =
     (if rewound u \<or> src2 u \<or> (src1 u \<and> Some d \<noteq> prevDir u)
      then getSide d (prevDir u) (row2 u) (source2 u) else (row2 u, source2 u))"
  by (auto simp: refill_def get1_getSide get2_getSide Let_def split: prod.splits)

lemma sorted_unionRows: "sorted_wrt (<) (unionRows xs ys)"
  by (simp add: unionRows_def strict_sorted_iff [symmetric])

lemma set_unionRows: "set (unionRows xs ys) = set xs \<union> set ys"
  by (simp add: unionRows_def)

lemma cursorStart_isFirst:
  assumes "sorted_wrt (<) m" "cursorStart m d = (out, c')"
  shows "isFirst d (set m) (\<lambda>_. True) out
       \<and> (case out of None \<Rightarrow> c' = CEnd d | Some y \<Rightarrow> \<exists>j < length m. c' = CAt j \<and> m ! j = y)"
proof (cases "m = []")
  case True
  with assms show ?thesis by (auto simp: cursorStart_def isFirst_def)
next
  case False
  show ?thesis
  proof (cases d)
    case Next
    with assms False isFirst_start_Next [OF assms(1) False] show ?thesis
      by (auto simp: cursorStart_def)
  next
    case Prev
    with assms False isFirst_start_Prev [OF assms(1) False] show ?thesis
      by (auto simp: cursorStart_def)
  qed
qed

lemma cursorGet_isFirst:
  assumes srt: "sorted_wrt (<) m" and i: "\<forall>i. c = CAt i \<longrightarrow> i < length m"
    and g: "cursorGet m c d = (out, c')"
  shows "isFirst d (set m) (want m c d) out
       \<and> (case out of None \<Rightarrow> c' = CEnd d | Some y \<Rightarrow> \<exists>j < length m. c' = CAt j \<and> m ! j = y)"
proof (cases c)
  case CRewound
  with g have "cursorStart m d = (out, c')" by (simp add: cursorGet_def)
  from cursorStart_isFirst [OF srt this] show ?thesis by (simp add: want_def CRewound)
next
  case (CEnd d0)
  show ?thesis
  proof (cases "d0 = d")
    case True
    with g CEnd show ?thesis by (auto simp: cursorGet_def want_def isFirst_def)
  next
    case False
    with g CEnd have "cursorStart m d = (out, c')" by (simp add: cursorGet_def)
    from cursorStart_isFirst [OF srt this] False show ?thesis by (simp add: want_def CEnd)
  qed
next
  case (CAt k)
  with i have k: "k < length m" by simp
  show ?thesis
  proof (cases d)
    case Next
    with g CAt isFirst_neighbour_Next [OF srt k] show ?thesis
      by (auto simp: cursorGet_def want_def split: if_splits)
  next
    case Prev
    with g CAt k isFirst_neighbour_Prev [OF srt k] show ?thesis
      by (auto simp: cursorGet_def want_def split: if_splits)
  qed
qed

lemma want_upClosed: "upClosed d (want m c d)"
proof (cases c)
  case CRewound
  then show ?thesis by (simp add: want_def upClosed_True)
next
  case (CAt i)
  then show ?thesis by (simp add: want_def upClosed_beyond)
next
  case (CEnd d0)
  then show ?thesis by (simp add: want_def upClosed_def)
qed


lemma isFirst_Some_mem: "isFirst d S P (Some y) \<Longrightarrow> y \<in> S \<and> P y"
  by (simp add: isFirst_def)

lemma union_step:
  assumes srt: "sorted_wrt (<) xs" "sorted_wrt (<) ys"
    and len: "\<forall>a \<in> set xs \<union> set ys. length a = n"
    and rel: "related xs ys u c"
    and ug: "Union_Get u d = (out, u')"
    and cg: "cursorGet (unionRows xs ys) c d = (out', c')"
  shows "map_option joinedRow out = out' \<and> related xs ys u' c'"
proof -
  let ?m = "unionRows xs ys"
  let ?P = "want ?m c d"
  let ?u1 = "refill d u"
  from rel have rows: "src_rows (source1 u) = xs" "src_rows (source2 u) = ys"
    and ci: "\<forall>i. c = CAt i \<longrightarrow> i < length ?m"
    and r1: "sideRel ?m c (rewound u) (prevDir u) (source1 u) (row1 u) (src1 u)"
    and r2: "sideRel ?m c (rewound u) (prevDir u) (source2 u) (row2 u) (src2 u)"
    by (simp_all add: related_def)
  have flags: "\<forall>i. c = CAt i \<longrightarrow> src1 u \<or> src2 u"
  proof (intro allI impI)
    fix i assume c: "c = CAt i"
    with ci have "?m ! i \<in> set ?m" by simp
    then have mem: "?m ! i \<in> set xs \<or> ?m ! i \<in> set ys" by (simp add: set_unionRows)
    from r1 c rows obtain d0 where a: "isFirst d0 (set xs) (atOrBeyond d0 (?m ! i)) (row1 u)"
      "src1 u = (row1 u = Some (?m ! i))" "prevDir u = Some d0"
      by (auto simp: sideRel_def)
    from r2 c rows a(3) have b: "isFirst d0 (set ys) (atOrBeyond d0 (?m ! i)) (row2 u)"
      "src2 u = (row2 u = Some (?m ! i))"
      by (auto simp: sideRel_def)
    from mem show "src1 u \<or> src2 u"
    proof
      assume "?m ! i \<in> set xs"
      from isFirst_member [OF a(1) this] a(2) show ?thesis by simp
    next
      assume "?m ! i \<in> set ys"
      from isFirst_member [OF b(1) this] b(2) show ?thesis by simp
    qed
  qed
  have s1: "isFirst d (set xs) ?P (row1 ?u1) \<and> holds (source1 ?u1) (row1 ?u1)
      \<and> src_rows (source1 ?u1) = xs"
    using side_step [of "source1 u" ?m c "rewound u" "prevDir u" "row1 u" "src1 u" "src2 u"
        "row1 ?u1" "source1 ?u1" d] srt(1) r1 flags refill_side1 [of d u]
    by (simp add: rows)
  have flags2: "\<forall>i. c = CAt i \<longrightarrow> src2 u \<or> src1 u" using flags by blast
  have s2: "isFirst d (set ys) ?P (row2 ?u1) \<and> holds (source2 ?u1) (row2 ?u1)
      \<and> src_rows (source2 ?u1) = ys"
    using side_step [of "source2 u" ?m c "rewound u" "prevDir u" "row2 u" "src2 u" "src1 u"
        "row2 ?u1" "source2 ?u1" d] srt(2) r2 flags2 refill_side2 [of d u]
    by (simp add: rows)
  from ug obtain u2 where gm: "getMerge u d = (out, u2)" and u': "u' = u2\<lparr>rewound := False\<rparr>"
    by (auto simp: Union_Get_def Let_def split: prod.splits)
  have leq: "\<forall>x y. row1 ?u1 = Some x \<longrightarrow> row2 ?u1 = Some y \<longrightarrow> length x = length y"
  proof (intro allI impI)
    fix x y assume "row1 ?u1 = Some x" "row2 ?u1 = Some y"
    with s1 s2 have "x \<in> set xs" "y \<in> set ys" by (auto dest: isFirst_Some_mem)
    with len show "length x = length y" by simp
  qed
  from getMerge_pick [OF leq gm]
  have o: "map_option joinedRow out = pick d (row1 ?u1) (row2 ?u1)"
    and f: "source1 u2 = source1 ?u1" "source2 u2 = source2 ?u1"
      "row1 u2 = row1 ?u1" "row2 u2 = row2 ?u1" "prevDir u2 = Some d"
      "src1 u2 = (out = None \<or> row1 u2 = map_option joinedRow out)"
      "src2 u2 = (out = None \<or> row2 u2 = map_option joinedRow out)"
    by simp_all
  have pf: "isFirst d (set xs \<union> set ys) ?P (pick d (row1 ?u1) (row2 ?u1))"
    using s1 s2 by (intro pick_isFirst) simp_all
  from cursorGet_isFirst [OF sorted_unionRows ci cg]
  have cf: "isFirst d (set ?m) ?P out'"
    and cn: "case out' of None \<Rightarrow> c' = CEnd d | Some y \<Rightarrow> \<exists>j < length ?m. c' = CAt j \<and> ?m ! j = y"
    by simp_all
  from pf cf have eq: "pick d (row1 ?u1) (row2 ?u1) = out'"
    by (simp add: set_unionRows isFirst_unique)
  with o have out: "map_option joinedRow out = out'" by simp
  have "related xs ys u' c'"
  proof (cases out')
    case None
    with cn have c': "c' = CEnd d" by simp
    from None eq have "row1 ?u1 = None" "row2 ?u1 = None" by (simp_all add: pick_None)
    with s1 s2 have e: "src_pos (source1 ?u1) = Eof" "src_pos (source2 ?u1) = Eof"
      "row1 ?u1 = None" "row2 ?u1 = None"
      by (simp_all add: holds_def)
    from None out have "out = None" by simp
    with e f s1 s2 show ?thesis
      by (simp add: related_def u' c' sideRel_def)
  next
    case (Some r')
    with cn obtain j where j: "j < length ?m" "c' = CAt j" "?m ! j = r'" by auto
    from Some eq have pk: "pick d (row1 ?u1) (row2 ?u1) = Some r'" by simp
    from pf pk have Pr: "?P r'" by (simp add: isFirst_def)
    from pick_first [OF pk] have fst: "\<forall>y. row1 ?u1 = Some y \<longrightarrow> atOrBeyond d r' y"
      "\<forall>y. row2 ?u1 = Some y \<longrightarrow> atOrBeyond d r' y"
      by simp_all
    have a1: "isFirst d (set xs) (atOrBeyond d r') (row1 ?u1)"
    proof (rule isFirst_advance [where P = ?P])
      show "isFirst d (set xs) ?P (row1 ?u1)" using s1 by simp
      show "upClosed d ?P" by (rule want_upClosed)
      show "?P r'" by (rule Pr)
      show "\<forall>y. row1 ?u1 = Some y \<longrightarrow> atOrBeyond d r' y" by (rule fst(1))
    qed
    have a2: "isFirst d (set ys) (atOrBeyond d r') (row2 ?u1)"
    proof (rule isFirst_advance [where P = ?P])
      show "isFirst d (set ys) ?P (row2 ?u1)" using s2 by simp
      show "upClosed d ?P" by (rule want_upClosed)
      show "?P r'" by (rule Pr)
      show "\<forall>y. row2 ?u1 = Some y \<longrightarrow> atOrBeyond d r' y" by (rule fst(2))
    qed
    from Some out have on: "out \<noteq> None" "map_option joinedRow out = Some r'" by auto
    with a1 a2 s1 s2 f j show ?thesis
      by (simp add: related_def u' sideRel_def)
  qed
  with out show ?thesis by simp
qed

lemma related_Rewind: "related xs ys u c \<Longrightarrow> related xs ys (Union_Rewind u) CRewound"
  by (simp add: related_def Union_Rewind_def Source_Rewind_def sideRel_def)

lemma related_newUnion: "related xs ys (newUnion xs ys) CRewound"
  by (simp add: related_def newUnion_def sideRel_def)

lemma runUnion_runCursor:
  assumes "sorted_wrt (<) xs" "sorted_wrt (<) ys" "\<forall>a \<in> set xs \<union> set ys. length a = n"
  shows "related xs ys u c \<Longrightarrow>
     map (map_option joinedRow) (runUnion u cs) = runCursor (unionRows xs ys) c cs"
proof (induction cs arbitrary: u c)
  case Nil
  then show ?case by simp
next
  case (Cons k cs)
  show ?case
  proof (cases k)
    case (Get d)
    obtain out u' where ug: "Union_Get u d = (out, u')" by (cases "Union_Get u d")
    obtain out' c' where cg: "cursorGet (unionRows xs ys) c d = (out', c')"
      by (cases "cursorGet (unionRows xs ys) c d")
    from union_step [OF assms Cons.prems ug cg]
    have "map_option joinedRow out = out'" "related xs ys u' c'" by simp_all
    with Cons.IH [of u' c'] show ?thesis by (simp add: Get ug cg)
  next
    case Rewind
    from Cons.IH [OF related_Rewind [OF Cons.prems]] show ?thesis by (simp add: Rewind)
  qed
qed

text \<open>
  C2. Two sources in key order: each is strictly increasing in the order \<open>compare\<close>
  decides (the lexicographic order of the raw values of \<open>mergeCols\<close>), all rows having
  the same number of columns. For every sequence of \<open>Get(Next)\<close>, \<open>Get(Prev)\<close> and
  \<open>Rewind\<close> calls, the rows the union reports are those of the logical cursor over the
  duplicate-free ordered union of the two sources: after a row was reported in one
  direction, a step in the opposite direction reports its neighbour on the other side
  (the row is skipped once, nothing else is), and a row present in both sources is
  reported once.
\<close>

theorem union_merge_is_cursor:
  assumes "sorted_wrt (<) xs" and "sorted_wrt (<) ys"
    and "\<forall>a \<in> set xs \<union> set ys. length a = n"
  shows "map (map_option joinedRow) (runUnion (newUnion xs ys) calls)
           = runCursor (unionRows xs ys) CRewound calls"
  using assms related_newUnion by (rule runUnion_runCursor)


theorem union_merge_is_cursor_witness:
  "sorted_wrt (<) [[''1''], [''4''], [''6''], [''7'']]
   \<and> sorted_wrt (<) [[''2''], [''3''], [''4''], [''5''], [''8''], [''9'']]
   \<and> list_all (\<lambda>a. length a = 1)
        ([[''1''], [''4''], [''6''], [''7'']] @ [[''2''], [''3''], [''4''], [''5''], [''8''], [''9'']])
   \<and> runCursor (unionRows [[''1''], [''4''], [''6''], [''7'']]
                   [[''2''], [''3''], [''4''], [''5''], [''8''], [''9'']]) CRewound
        [Get Next, Get Next, Get Next, Get Next, Get Prev, Get Next, Get Next, Get Prev, Get Prev,
         Get Prev, Get Prev, Get Prev, Get Prev, Rewind, Get Prev]
       = [Some [''1''], Some [''2''], Some [''3''], Some [''4''], Some [''3''], Some [''4''],
          Some [''5''], Some [''4''], Some [''3''], Some [''2''], Some [''1''], None, None,
          Some [''9'']]
   \<and> map (map_option joinedRow)
        (runUnion (newUnion [[''1''], [''4''], [''6''], [''7'']]
                     [[''2''], [''3''], [''4''], [''5''], [''8''], [''9'']])
        [Get Next, Get Next, Get Next, Get Next, Get Prev, Get Next, Get Next, Get Prev, Get Prev,
         Get Prev, Get Prev, Get Prev, Get Prev, Rewind, Get Prev])
       = [Some [''1''], Some [''2''], Some [''3''], Some [''4''], Some [''3''], Some [''4''],
          Some [''5''], Some [''4''], Some [''3''], Some [''2''], Some [''1''], None, None,
          Some [''9'']]"
proof -
  have a: "sorted_wrt (<) [[''1''], [''4''], [''6''], [''7'']]" by code_simp
  have b: "sorted_wrt (<) [[''2''], [''3''], [''4''], [''5''], [''8''], [''9'']]" by code_simp
  have c: "\<forall>a \<in> set [[''1''], [''4''], [''6''], [''7'']]
             \<union> set [[''2''], [''3''], [''4''], [''5''], [''8''], [''9'']]. length a = 1"
    by simp
  have r: "runCursor (unionRows [[''1''], [''4''], [''6''], [''7'']]
                   [[''2''], [''3''], [''4''], [''5''], [''8''], [''9'']]) CRewound
        [Get Next, Get Next, Get Next, Get Next, Get Prev, Get Next, Get Next, Get Prev, Get Prev,
         Get Prev, Get Prev, Get Prev, Get Prev, Rewind, Get Prev]
       = [Some [''1''], Some [''2''], Some [''3''], Some [''4''], Some [''3''], Some [''4''],
          Some [''5''], Some [''4''], Some [''3''], Some [''2''], Some [''1''], None, None,
          Some [''9'']]"
    by code_simp
  show ?thesis
    using a b r union_merge_is_cursor [OF a b c,
        of "[Get Next, Get Next, Get Next, Get Next, Get Prev, Get Next, Get Next, Get Prev, Get Prev,
         Get Prev, Get Prev, Get Prev, Get Prev, Rewind, Get Prev]"]
    by simp
qed

section \<open>Repair (db19/repair.go)\<close>





















subsection \<open>What Repair is to achieve\<close>


text \<open>A store that maps the file \<open>bs\<close>: every chunk has the chunk size and shows the
  bytes of the file at its place, zero after the end of the file; the size of the store
  is within the file and within the chunks that are mapped, and the file holds only
  zeros from there on.\<close>

definition chunkOf :: "nat \<Rightarrow> byte list \<Rightarrow> nat \<Rightarrow> byte list" where
  "chunkOf cs bs c = take cs (drop (c * cs) bs @ replicate cs 0)"














subsection \<open>The backward scan\<close>




lemma length_chunkOf [simp]: "length (chunkOf cs bs c) = cs"
  by (simp add: chunkOf_def)





































subsection \<open>Runs of Repair\<close>
























subsection \<open>Repair selects a valid state\<close>




section \<open>Bulk loading an fbtree (database/db19/btree)\<close>

text \<open>
  Modelled from the spec: \<open>NewFbtreeBuilder\<close>, \<open>Add\<close>, \<open>Finish\<close>, \<open>OpenFbtree\<close> and
  \<open>Iter\<close> are not under src/; only their test \<open>TestFbtreeBuilder\<close> is. The spec: an
  fbtree has "inner and leaf nodes"; "a node has a monotone sequence of separator keys,
  truncated to the shortest discriminating prefix; leaves store (truncated-key,
  data-offset)"; the builder "constructs a fully packed tree by bulk-loading sorted
  input in one pass" and \<open>finish\<close> gives the root and the number of levels; \<open>iter\<close> is a
  "generator in key order" of \<open>(key, offset)\<close>. Nodes are values here rather than
  offsets into the store, a node is full at \<open>MaxNodeSize\<close> entries, and a key is
  truncated against the key added before it (the first against nothing).
\<close>

datatype fnode = Leaf "(string \<times> nat) list" | Inner "(string \<times> fnode) list"

fun commonPrefixLen :: "string \<Rightarrow> string \<Rightarrow> nat" where
  "commonPrefixLen (a # as) (b # bs) = (if a = b then Suc (commonPrefixLen as bs) else 0)"
| "commonPrefixLen _ _ = 0"

text \<open>The shortest prefix of \<open>key\<close> that tells it from the key before it.\<close>

definition truncated :: "string option \<Rightarrow> string \<Rightarrow> string" where
  "truncated before key =
     (case before of None \<Rightarrow> [] | Some p \<Rightarrow> take (commonPrefixLen p key + 1) key)"

text \<open>A node under construction on one level of the tree: the full key of its first
  entry, the full key added last on this level, and its entries so far.\<close>

record 'a level =
  first :: string
  prev :: "string option"
  ents :: "(string \<times> 'a) list"

definition newLevel :: "'a level" where
  "newLevel = \<lparr>first = [], prev = None, ents = []\<rparr>"

definition put :: "'a level \<Rightarrow> string \<Rightarrow> 'a \<Rightarrow> 'a level" where
  "put lev key x =
     \<lparr>first = (if ents lev = [] then key else first lev), prev = Some key,
      ents = ents lev @ [(truncated (prev lev) key, x)]\<rparr>"

definition full :: "nat \<Rightarrow> 'a level \<Rightarrow> bool" where
  "full MaxNodeSize lev = (ents lev \<noteq> [] \<and> MaxNodeSize \<le> length (ents lev))"

record fbtreeBuilder =
  MaxNodeSize :: nat
  leaf :: "nat level"
  inners :: "fnode level list"


text \<open>A finished node goes into the level above under its first key; a full node
  there is finished first.\<close>

fun insertUp :: "nat \<Rightarrow> fnode level list \<Rightarrow> string \<Rightarrow> fnode \<Rightarrow> fnode level list" where
  "insertUp mns [] key node = [put newLevel key node]"
| "insertUp mns (lev # levs) key node =
     (if full mns lev
      then put (lev\<lparr>ents := []\<rparr>) key node # insertUp mns levs (first lev) (Inner (ents lev))
      else put lev key node # levs)"

definition Add :: "fbtreeBuilder \<Rightarrow> string \<Rightarrow> nat \<Rightarrow> fbtreeBuilder" where
  "Add b key off =
     (if full (MaxNodeSize b) (leaf b)
      then b\<lparr>leaf := put ((leaf b)\<lparr>ents := []\<rparr>) key off,
             inners := insertUp (MaxNodeSize b) (inners b) (first (leaf b)) (Leaf (ents (leaf b)))\<rparr>
      else b\<lparr>leaf := put (leaf b) key off\<rparr>)"



text \<open>\<open>Iter\<close>: the entries of the leaves, from left to right.\<close>

fun Iter :: "fnode \<Rightarrow> (string \<times> nat) list" where
  "Iter (Leaf es) = es"
| "Iter (Inner cs) = concat (map (\<lambda>c. Iter (snd c)) cs)"


text \<open>\<open>strings.HasPrefix\<close>, which the test applies to the input key and the key
  returned.\<close>

definition HasPrefix :: "string \<Rightarrow> string \<Rightarrow> bool" where
  "HasPrefix s p = (length p \<le> length s \<and> take (length p) s = p)"

text \<open>The input with every key truncated against the one before it.\<close>

fun truncatedAll :: "string option \<Rightarrow> (string \<times> nat) list \<Rightarrow> (string \<times> nat) list" where
  "truncatedAll before [] = []"
| "truncatedAll before ((key, off) # xs) = (truncated before key, off) # truncatedAll (Some key) xs"



lemma Iter_put [simp]:
  "concat (map (\<lambda>c. Iter (snd c)) (ents (put lev key node)))
     = concat (map (\<lambda>c. Iter (snd c)) (ents lev)) @ Iter node"
  by (simp add: put_def)





lemma Add_prev [simp]: "prev (leaf (Add b key off)) = Some key"
  by (simp add: Add_def put_def)








text \<open>A truncated key tells its key from the smaller key before it.\<close>

lemma truncated_discriminates:
  "p < key \<Longrightarrow> \<not> HasPrefix p (truncated (Some p) key)"
proof (induction p arbitrary: key)
  case Nil
  then show ?case by (cases key) (simp_all add: HasPrefix_def truncated_def)
next
  case (Cons a as)
  from Cons.prems obtain b bs where key: "key = b # bs" by (cases key) auto
  show ?case
  proof (cases "a = b")
    case True
    with Cons.prems key have "as < bs" by simp
    from Cons.IH [OF this] True key show ?thesis by (simp add: HasPrefix_def truncated_def)
  next
    case False
    with key show ?thesis by (simp add: HasPrefix_def truncated_def)
  qed
qed

lemma truncatedAll_discriminates:
  assumes "sorted_wrt (<) (map fst xs)" "Suc i < length xs"
  shows "\<not> HasPrefix (fst (xs ! i)) (fst (truncatedAll before xs ! Suc i))"
  using assms
proof (induction before xs arbitrary: i rule: truncatedAll.induct)
  case (1 before)
  then show ?case by simp
next
  case (2 before key off xs)
  show ?case
  proof (cases i)
    case 0
    with 2 obtain k2 o2 ys where xs: "xs = (k2, o2) # ys" by (cases xs) auto
    with 2 have "key < k2" by simp
    from truncated_discriminates [OF this] 0 xs show ?thesis by simp
  next
    case (Suc j)
    with 2 show ?thesis by simp
  qed
qed




end
